theory Spec2Isabelle
  imports Main "HOL-Library.AList"
begin

section \<open>Retrieval of metadata archives: extraction and JSON merging\<close>

text \<open>
  The development follows \<^verbatim>\<open>cmd/retrieve.go\<close> (the retrieve command: spooling each
  payload, unzipping it into the target directory, merging JSON files that an earlier
  archive already wrote) and the \<^verbatim>\<open>ziputils\<close> package (building archives).
  Byte strings are \<^typ>\<open>string\<close>; Go's \<^verbatim>\<open>error\<close> results are values of the type
  \<open>error\<close>; the filesystem is an explicit state that every operation takes and returns.
\<close>

type_synonym bytes = string

datatype error =
    MergeError
  | SyntaxError
  | ArchiveOpenError
  | FilesystemError string
  | StreamError
  | ArchiveWriteError

subsection \<open>JSON documents\<close>

text \<open>
  Numbers and strings are kept as the text they have in the document: merging never
  computes with them. An object is its list of members.
\<close>

datatype json =
    JNull
  | JBool bool
  | JNumber string
  | JString string
  | JArray "json list"
  | JObject "(string \<times> json) list"

text \<open>
  Modelled from the spec: the JSON reader of the libraries \<^verbatim>\<open>encoding/json\<close>,
  \<^verbatim>\<open>json-iterator-go\<close> and \<^verbatim>\<open>json-patch\<close> is not part of the sources; the spec
  only says which inputs are "valid JSON". First the characters of JSON text: white space,
  digits, the characters of a number, the characters that may follow a backslash.
\<close>

definition is_ws :: "char \<Rightarrow> bool" where
  "is_ws c = (c = CHR '' '' \<or> c = CHR 0x09 \<or> c = CHR 0x0A \<or> c = CHR 0x0D)"

definition skip_ws :: "string \<Rightarrow> string" where
  "skip_ws s = dropWhile is_ws s"

definition is_digit :: "char \<Rightarrow> bool" where
  "is_digit c = (c \<in> set ''0123456789'')"

definition is_hex :: "char \<Rightarrow> bool" where
  "is_hex c = (c \<in> set ''0123456789abcdefABCDEF'')"

definition is_num_char :: "char \<Rightarrow> bool" where
  "is_num_char c = (is_digit c \<or> c \<in> set ''+-.eE'')"

definition is_escape :: "char \<Rightarrow> bool" where
  "is_escape c = (c = CHR 0x22 \<or> c = CHR 0x5C \<or> c \<in> set ''/bfnrt'')"

text \<open>
  Modelled from the spec: the JSON reader, not part of the sources. \<open>scan_string\<close> reads
  a string after its opening quote, up to the closing quote, and keeps the text between
  them as it is.
\<close>

fun scan_string :: "string \<Rightarrow> (string \<times> string) option" where
  "scan_string [] = None"
| "scan_string (c # cs) =
     (if c = CHR 0x22 then Some ([], cs)
      else if c = CHR 0x5C then
        (case cs of
           [] \<Rightarrow> None
         | e # cs' \<Rightarrow>
             if is_escape e then
               (case scan_string cs' of
                  None \<Rightarrow> None
                | Some (b, r) \<Rightarrow> Some (c # e # b, r))
             else if e = CHR ''u'' \<and> 4 \<le> length cs' \<and> list_all is_hex (take 4 cs') then
               (case scan_string (drop 4 cs') of
                  None \<Rightarrow> None
                | Some (b, r) \<Rightarrow> Some (c # e # take 4 cs' @ b, r))
             else None)
      else if (of_char c :: nat) < 0x20 then None
      else
        (case scan_string cs of
           None \<Rightarrow> None
         | Some (b, r) \<Rightarrow> Some (c # b, r)))"

text \<open>
  Modelled from the spec: the JSON reader, not part of the sources. The text of a number
  is an optional minus sign, digits with no leading zero, an optional fraction and an
  optional exponent.
\<close>

definition exp_ok :: "string \<Rightarrow> bool" where
  "exp_ok r =
     (case r of
        [] \<Rightarrow> True
      | e # r' \<Rightarrow>
          (e = CHR ''e'' \<or> e = CHR ''E'') \<and>
          (let ds = (case r' of
                       [] \<Rightarrow> []
                     | s # r'' \<Rightarrow> if s = CHR ''+'' \<or> s = CHR ''-'' then r'' else r')
           in ds \<noteq> [] \<and> list_all is_digit ds))"

definition valid_number :: "string \<Rightarrow> bool" where
  "valid_number s =
     (let s1 = (case s of [] \<Rightarrow> [] | c # r \<Rightarrow> if c = CHR ''-'' then r else s);
          ip = takeWhile is_digit s1;
          r1 = dropWhile is_digit s1
      in ip \<noteq> [] \<and> (if hd ip = CHR ''0'' then length ip = 1 else True) \<and>
         (case r1 of
            [] \<Rightarrow> True
          | d # r2 \<Rightarrow>
              if d = CHR ''.'' then
                takeWhile is_digit r2 \<noteq> [] \<and> exp_ok (dropWhile is_digit r2)
              else exp_ok r1))"

text \<open>
  Modelled from the spec: the JSON reader, not part of the sources. A recursive-descent
  reader of one JSON value. The first argument bounds the nesting of calls; \<open>json_parse\<close> gives it the
  length of the input, which every call chain stays below since each call reads at least
  one character.
\<close>

fun parse_value :: "nat \<Rightarrow> string \<Rightarrow> (json \<times> string) option"
and parse_members :: "nat \<Rightarrow> string \<Rightarrow> ((string \<times> json) list \<times> string) option"
and parse_elements :: "nat \<Rightarrow> string \<Rightarrow> (json list \<times> string) option"
where
  "parse_value 0 s = None"
| "parse_value (Suc n) s =
     (case skip_ws s of
        [] \<Rightarrow> None
      | c # r \<Rightarrow>
          if c = CHR ''{'' then
            (case skip_ws r of
               [] \<Rightarrow> None
             | c' # r' \<Rightarrow>
                 if c' = CHR ''}'' then Some (JObject [], r')
                 else (case parse_members n r of
                         None \<Rightarrow> None
                       | Some (kvs, r'') \<Rightarrow> Some (JObject kvs, r'')))
          else if c = CHR ''['' then
            (case skip_ws r of
               [] \<Rightarrow> None
             | c' # r' \<Rightarrow>
                 if c' = CHR '']'' then Some (JArray [], r')
                 else (case parse_elements n r of
                         None \<Rightarrow> None
                       | Some (vs, r'') \<Rightarrow> Some (JArray vs, r'')))
          else if c = CHR 0x22 then
            (case scan_string r of
               None \<Rightarrow> None
             | Some (b, r') \<Rightarrow> Some (JString b, r'))
          else if take 4 (c # r) = ''true'' then Some (JBool True, drop 3 r)
          else if take 5 (c # r) = ''false'' then Some (JBool False, drop 4 r)
          else if take 4 (c # r) = ''null'' then Some (JNull, drop 3 r)
          else if valid_number (takeWhile is_num_char (c # r)) then
            Some (JNumber (takeWhile is_num_char (c # r)), dropWhile is_num_char (c # r))
          else None)"
| "parse_members 0 s = None"
| "parse_members (Suc n) s =
     (case skip_ws s of
        [] \<Rightarrow> None
      | c # r \<Rightarrow>
          if c \<noteq> CHR 0x22 then None
          else
            (case scan_string r of
               None \<Rightarrow> None
             | Some (k, r1) \<Rightarrow>
                 (case skip_ws r1 of
                    [] \<Rightarrow> None
                  | c1 # r2 \<Rightarrow>
                      if c1 \<noteq> CHR '':'' then None
                      else
                        (case parse_value n r2 of
                           None \<Rightarrow> None
                         | Some (v, r3) \<Rightarrow>
                             (case skip_ws r3 of
                                [] \<Rightarrow> None
                              | c3 # r4 \<Rightarrow>
                                  if c3 = CHR '','' then
                                    (case parse_members n r4 of
                                       None \<Rightarrow> None
                                     | Some (kvs, r5) \<Rightarrow> Some ((k, v) # kvs, r5))
                                  else if c3 = CHR ''}'' then Some ([(k, v)], r4)
                                  else None)))))"
| "parse_elements 0 s = None"
| "parse_elements (Suc n) s =
     (case parse_value n s of
        None \<Rightarrow> None
      | Some (v, r1) \<Rightarrow>
          (case skip_ws r1 of
             [] \<Rightarrow> None
           | c # r2 \<Rightarrow>
               if c = CHR '','' then
                 (case parse_elements n r2 of
                    None \<Rightarrow> None
                  | Some (vs, r3) \<Rightarrow> Some (v # vs, r3))
               else if c = CHR '']'' then Some ([v], r2)
               else None))"

text \<open>
  Modelled from the spec: the JSON reader, not part of the sources. A valid document is
  one value with nothing but white space around it.
\<close>

definition json_parse :: "bytes \<Rightarrow> json option" where
  "json_parse s =
     (case parse_value (length s) s of
        None \<Rightarrow> None
      | Some (v, r) \<Rightarrow> if skip_ws r = [] then Some v else None)"

text \<open>
  Modelled from the spec: the JSON reader, not part of the sources. The libraries read an
  object into a Go map, which holds one value per key; where a document repeats a key,
  the last value stays.
\<close>

fun unmarshal_value :: "json \<Rightarrow> json"
and unmarshal_members :: "(string \<times> json) list \<Rightarrow> (string \<times> json) list \<Rightarrow> (string \<times> json) list"
where
  "unmarshal_value (JObject kvs) = JObject (unmarshal_members [] kvs)"
| "unmarshal_value (JArray vs) = JArray (map unmarshal_value vs)"
| "unmarshal_value v = v"
| "unmarshal_members acc [] = acc"
| "unmarshal_members acc ((k, v) # kvs) =
     unmarshal_members (AList.update k (unmarshal_value v) acc) kvs"

text \<open>
  Modelled from the spec: \<^verbatim>\<open>Unmarshal\<close> of the JSON library, not part of the sources:
  reading a document into maps.
\<close>

definition json_Unmarshal :: "bytes \<Rightarrow> json option" where
  "json_Unmarshal data = map_option unmarshal_value (json_parse data)"

subsection \<open>Key order of the merged output\<close>

text \<open>Go's \<^verbatim>\<open><\<close> on strings compares them byte by byte.\<close>

fun string_less :: "string \<Rightarrow> string \<Rightarrow> bool" where
  "string_less [] [] = False"
| "string_less [] (y # ys) = True"
| "string_less (x # xs) [] = False"
| "string_less (x # xs) (y # ys) =
     ((of_char x :: nat) < of_char y \<or> (x = y \<and> string_less xs ys))"

text \<open>\<^verbatim>\<open>nameFirstKeySorter.Sort\<close>: whether \<open>keyA\<close> goes before \<open>keyB\<close>.\<close>

definition nameFirstKeySorter_Sort :: "string \<Rightarrow> string \<Rightarrow> bool" where
  "nameFirstKeySorter_Sort keyA keyB =
     (if keyA = ''name'' then True
      else if keyB = ''name'' then False
      else string_less keyA keyB)"

text \<open>
  Modelled from the spec: the serializer of \<^verbatim>\<open>json-iterator-go\<close>, configured with
  \<^verbatim>\<open>SortMapKeys\<close> and the sorter above, is not part of the sources. The spec says that
  the keys of every object of the output, at every nesting level, are in the sorter's
  order. \<open>sort_keys\<close> sorts the members of one object by insertion, comparing keys with
  \<open>nameFirstKeySorter_Sort\<close>; \<open>sort_json\<close> does so at every level.
\<close>

fun insert_key :: "string \<times> 'a \<Rightarrow> (string \<times> 'a) list \<Rightarrow> (string \<times> 'a) list" where
  "insert_key kv [] = [kv]"
| "insert_key kv (x # xs) =
     (if nameFirstKeySorter_Sort (fst kv) (fst x) then kv # x # xs
      else x # insert_key kv xs)"

definition sort_keys :: "(string \<times> 'a) list \<Rightarrow> (string \<times> 'a) list" where
  "sort_keys kvs = foldr insert_key kvs []"

fun sort_json :: "json \<Rightarrow> json" where
  "sort_json (JObject kvs) = JObject (sort_keys (map (\<lambda>(k, v). (k, sort_json v)) kvs))"
| "sort_json (JArray vs) = JArray (map sort_json vs)"
| "sort_json v = v"

text \<open>
  Modelled from the spec: the writers of JSON text (\<^verbatim>\<open>Marshal\<close> of the serializer and
  \<^verbatim>\<open>json.Indent\<close>) are not part of the sources. \<open>render False\<close> writes a value with no
  white space; \<open>render True\<close> writes it as the spec describes the merged file: one
  member or element per line, one tab per nesting level.
\<close>

definition newline :: "bool \<Rightarrow> nat \<Rightarrow> string" where
  "newline pretty depth = (if pretty then CHR 0x0A # replicate depth (CHR 0x09) else [])"

definition colon :: "bool \<Rightarrow> string" where
  "colon pretty = (if pretty then '': '' else '':'')"

fun render :: "bool \<Rightarrow> nat \<Rightarrow> json \<Rightarrow> string"
and render_members :: "bool \<Rightarrow> nat \<Rightarrow> (string \<times> json) list \<Rightarrow> string"
and render_elements :: "bool \<Rightarrow> nat \<Rightarrow> json list \<Rightarrow> string"
where
  "render p d JNull = ''null''"
| "render p d (JBool b) = (if b then ''true'' else ''false'')"
| "render p d (JNumber n) = n"
| "render p d (JString s) = CHR 0x22 # s @ [CHR 0x22]"
| "render p d (JArray []) = ''[]''"
| "render p d (JArray (v # vs)) =
     ''['' @ newline p (Suc d) @ render_elements p (Suc d) (v # vs) @ newline p d @ '']''"
| "render p d (JObject []) = ''{}''"
| "render p d (JObject (kv # kvs)) =
     ''{'' @ newline p (Suc d) @ render_members p (Suc d) (kv # kvs) @ newline p d @ ''}''"
| "render_members p d [] = []"
| "render_members p d ((k, v) # kvs) =
     CHR 0x22 # k @ [CHR 0x22] @ colon p @ render p d v @
     (if kvs = [] then [] else '','' @ newline p d @ render_members p d kvs)"
| "render_elements p d [] = []"
| "render_elements p d (v # vs) =
     render p d v @ (if vs = [] then [] else '','' @ newline p d @ render_elements p d vs)"

text \<open>
  Modelled from the spec: \<^verbatim>\<open>Marshal\<close> of the serializer, not part of the sources: the
  text of a document, with the keys of every object in the sorter's order.
\<close>

definition json_Marshal :: "json \<Rightarrow> bytes" where
  "json_Marshal v = render False 0 (sort_json v)"

text \<open>
  Modelled from the spec: \<^verbatim>\<open>json.Indent\<close> with the empty prefix and a tab, not part of
  the sources: the same document, one tab per nesting level; it fails on text that is
  not JSON.
\<close>

definition json_Indent :: "bytes \<Rightarrow> error + bytes" where
  "json_Indent src =
     (case json_parse src of
        None \<Rightarrow> Inl SyntaxError
      | Some v \<Rightarrow> Inr (render True 0 v))"

subsection \<open>JSON Merge Patch\<close>

text \<open>
  Modelled from the spec: \<^verbatim>\<open>jsonpatch.MergePatch\<close> (the library \<^verbatim>\<open>json-patch\<close>) is
  not part of the sources. The spec describes it as a JSON Merge Patch: a field of the
  incoming document overwrites the field of the existing one, a field that is null in
  the incoming document is removed, objects on both sides are merged recursively, any
  other incoming value replaces the existing one; it fails unless both inputs are valid
  JSON with an object at the top.
\<close>

fun merge :: "json \<Rightarrow> json \<Rightarrow> json"
and mergeDocs :: "(string \<times> json) list \<Rightarrow> (string \<times> json) list \<Rightarrow> (string \<times> json) list"
where
  "merge cur (JObject patch) =
     JObject (mergeDocs (case cur of JObject doc \<Rightarrow> doc | _ \<Rightarrow> []) patch)"
| "merge cur patch = patch"
| "mergeDocs doc [] = doc"
| "mergeDocs doc ((k, v) # patch) =
     mergeDocs
       (if v = JNull then AList.delete k doc
        else AList.update k
               (merge (case map_of doc k of Some cur \<Rightarrow> cur | None \<Rightarrow> JNull) v) doc)
       patch"

text \<open>
  Modelled from the spec: \<^verbatim>\<open>jsonpatch.MergePatch\<close> on bytes, not part of the sources.
  The spec says that it fails if either input is not valid JSON or has no object at the
  top.
\<close>

definition MergePatch :: "bytes \<Rightarrow> bytes \<Rightarrow> error + bytes" where
  "MergePatch docData patchData =
     (case (json_Unmarshal docData, json_Unmarshal patchData) of
        (Some (JObject doc), Some (JObject patch)) \<Rightarrow>
          Inr (json_Marshal (JObject (mergeDocs doc patch)))
      | _ \<Rightarrow> Inl MergeError)"

subsection \<open>Well-formed documents\<close>

text \<open>
  The text of a number or of a string that the reader accepts, and the documents all of
  whose numbers, strings and keys are such texts.
\<close>

definition string_body_ok :: "string \<Rightarrow> bool" where
  "string_body_ok b = (scan_string (b @ [CHR 0x22]) = Some (b, []))"

definition number_ok :: "string \<Rightarrow> bool" where
  "number_ok n = (list_all is_num_char n \<and> valid_number n)"

fun lexemes_ok :: "json \<Rightarrow> bool" where
  "lexemes_ok (JNumber n) = number_ok n"
| "lexemes_ok (JString s) = string_body_ok s"
| "lexemes_ok (JArray vs) = list_all lexemes_ok vs"
| "lexemes_ok (JObject kvs) = list_all (\<lambda>kv. string_body_ok (fst kv) \<and> lexemes_ok (snd kv)) kvs"
| "lexemes_ok v = True"

text \<open>The documents in which no object has a key twice.\<close>

fun distinct_keys :: "json \<Rightarrow> bool" where
  "distinct_keys (JObject kvs) =
     (distinct (map fst kvs) \<and> list_all (\<lambda>kv. distinct_keys (snd kv)) kvs)"
| "distinct_keys (JArray vs) = list_all distinct_keys vs"
| "distinct_keys v = True"



text \<open>How many nested calls the reader makes for a document.\<close>

fun fuel_of :: "json \<Rightarrow> nat"
and fuel_members :: "(string \<times> json) list \<Rightarrow> nat"
and fuel_elements :: "json list \<Rightarrow> nat"
where
  "fuel_of (JObject kvs) = Suc (fuel_members kvs)"
| "fuel_of (JArray vs) = Suc (fuel_elements vs)"
| "fuel_of v = 1"
| "fuel_members [] = 0"
| "fuel_members ((k, v) # kvs) = Suc (fuel_of v + fuel_members kvs)"
| "fuel_elements [] = 0"
| "fuel_elements (v # vs) = Suc (fuel_of v + fuel_elements vs)"

text \<open>What may follow a number: the end of the text or a character that no number has.\<close>

definition delimited :: "string \<Rightarrow> bool" where
  "delimited r = (case r of [] \<Rightarrow> True | c # cs \<Rightarrow> \<not> is_num_char c)"

text \<open>A text that starts with the first character of a value.\<close>

definition starts_value :: "string \<Rightarrow> bool" where
  "starts_value s =
     (case s of [] \<Rightarrow> False
      | c # cs \<Rightarrow> \<not> is_ws c \<and> c \<noteq> CHR ''}'' \<and> c \<noteq> CHR '']'')"

text \<open>
  The layout that the spec describes, one tab per nesting level, as a test on a text:
  after every line break outside a string there are as many tabs as objects and arrays
  are open there, one fewer where the line starts with a closing bracket. The first two
  arguments tell whether the text is inside a string and behind a backslash, the third
  is the number of open objects and arrays.
\<close>

function tab_indented :: "bool \<Rightarrow> bool \<Rightarrow> nat \<Rightarrow> string \<Rightarrow> bool" where
  "tab_indented in_string escaped depth [] = (\<not> in_string)"
| "tab_indented in_string escaped depth (c # cs) =
     (if in_string then
        (if escaped then tab_indented True False depth cs
         else if c = CHR 0x5C then tab_indented True True depth cs
         else if c = CHR 0x22 then tab_indented False False depth cs
         else tab_indented True False depth cs)
      else if c = CHR 0x22 then tab_indented True False depth cs
      else if c = CHR ''{'' \<or> c = CHR ''['' then tab_indented False False (Suc depth) cs
      else if c = CHR ''}'' \<or> c = CHR '']'' then tab_indented False False (depth - 1) cs
      else if c = CHR 0x0A then
        (let level = (case dropWhile (\<lambda>t. t = CHR 0x09) cs of
                        [] \<Rightarrow> depth
                      | c' # cs' \<Rightarrow> if c' = CHR ''}'' \<or> c' = CHR '']'' then depth - 1 else depth)
         in length (takeWhile (\<lambda>t. t = CHR 0x09) cs) = level \<and>
            tab_indented False False depth (dropWhile (\<lambda>t. t = CHR 0x09) cs))
      else tab_indented False False depth cs)"
  by pat_completeness auto
termination
  by (relation "measure (\<lambda>(in_string, escaped, depth, cs). length cs)")
    (auto simp: less_Suc_eq_le length_dropWhile_le)


text \<open>The members of a document, none unless it is an object; the value at a key, null if absent.\<close>

definition members_of :: "json \<Rightarrow> (string \<times> json) list" where
  "members_of x = (case x of JObject doc \<Rightarrow> doc | _ \<Rightarrow> [])"

definition lookup_or_null :: "(string \<times> json) list \<Rightarrow> string \<Rightarrow> json" where
  "lookup_or_null doc k = (case map_of doc k of Some cur \<Rightarrow> cur | None \<Rightarrow> JNull)"

subsection \<open>Paths\<close>

text \<open>The host is taken to separate path elements with a slash.\<close>

definition Separator :: char where
  "Separator = CHR ''/''"

fun strings_Split :: "string \<Rightarrow> char \<Rightarrow> string list" where
  "strings_Split [] sep = [[]]"
| "strings_Split (c # cs) sep =
     (if c = sep then [] # strings_Split cs sep
      else (case strings_Split cs sep of
              [] \<Rightarrow> [[c]]
            | p # ps \<Rightarrow> (c # p) # ps))"

fun strings_Join :: "string list \<Rightarrow> char \<Rightarrow> string" where
  "strings_Join [] sep = []"
| "strings_Join [p] sep = p"
| "strings_Join (p # q # ps) sep = p @ sep # strings_Join (q # ps) sep"

text \<open>
  \<^verbatim>\<open>filepath.Clean\<close> of the Go library: empty and \<^verbatim>\<open>.\<close> elements go, \<^verbatim>\<open>..\<close>
  takes the element before it away (or goes itself at the root), and the empty result is
  \<^verbatim>\<open>.\<close>. \<open>out\<close> holds the elements kept so far, the last one first.
\<close>

fun clean_parts :: "bool \<Rightarrow> string list \<Rightarrow> string list \<Rightarrow> string list" where
  "clean_parts rooted out [] = rev out"
| "clean_parts rooted out (p # ps) =
     (if p = [] \<or> p = ''.'' then clean_parts rooted out ps
      else if p = ''..'' then
        (case out of
           [] \<Rightarrow> clean_parts rooted (if rooted then [] else [p]) ps
         | q # qs \<Rightarrow>
             if q = ''..'' then clean_parts rooted (p # out) ps
             else clean_parts rooted qs ps)
      else clean_parts rooted (p # out) ps)"

definition filepath_Clean :: "string \<Rightarrow> string" where
  "filepath_Clean path =
     (let rooted = (path \<noteq> [] \<and> hd path = Separator);
          body = strings_Join (clean_parts rooted [] (strings_Split path Separator)) Separator;
          out = (if rooted then Separator # body else body)
      in if out = [] then ''.'' else out)"

text \<open>\<^verbatim>\<open>filepath.Join\<close>: the elements from the first non-empty one on, joined and cleaned.\<close>

definition filepath_Join :: "string list \<Rightarrow> string" where
  "filepath_Join elem =
     (case dropWhile (\<lambda>e. e = []) elem of
        [] \<Rightarrow> []
      | e # es \<Rightarrow> filepath_Clean (strings_Join (e # es) Separator))"

definition filepath_FromSlash :: "string \<Rightarrow> string" where
  "filepath_FromSlash path = map (\<lambda>c. if c = CHR ''/'' then Separator else c) path"

definition filepath_SplitList :: "string \<Rightarrow> string list" where
  "filepath_SplitList path = (if path = [] then [] else strings_Split path (CHR '':''))"

definition path_Join :: "string list \<Rightarrow> string" where
  "path_Join elem =
     (let buf = strings_Join (filter (\<lambda>e. e \<noteq> []) elem) (CHR ''/'')
      in if buf = [] then [] else filepath_Clean buf)"

subsection \<open>The filesystem\<close>

text \<open>
  What the operating system holds for the run: the files and directories by path, the
  temporary files with what \<^verbatim>\<open>zip.OpenReader\<close> finds in each, the answers that the next
  calls of \<^verbatim>\<open>ioutil.TempFile\<close> will give, and the directory of the executable (the
  answer of \<^verbatim>\<open>filepath.Abs(filepath.Dir(os.Args[0]))\<close>).
\<close>

datatype node = File bytes | Dir nat

text \<open>A stream: the bytes it delivers and the error, if any, that reading it ends with.\<close>

datatype reader = Reader (content: bytes) (fault: "error option")

record zip_file =
  Name :: string
  IsDir :: bool
  Mode :: nat
  Open :: "error + reader"

record world =
  nodes :: "string \<rightharpoonup> node"
  temps :: "string \<rightharpoonup> (error + zip_file list)"
  tempfiles :: "(error + string) list"
  exe_dir :: "error + string"

text \<open>One payload: whether copying the stream fails, and the archive its bytes hold.\<close>

record archive_payload =
  copy_error :: "error option"
  archive :: "error + zip_file list"

type_synonym FileCreator = "reader \<Rightarrow> string \<Rightarrow> world \<Rightarrow> error option \<times> world"
type_synonym DirectoryCreator = "string \<Rightarrow> nat \<Rightarrow> world \<Rightarrow> error option \<times> world"
type_synonym FileReader = "string \<Rightarrow> world \<Rightarrow> error + bytes"

text \<open>
  The calls of Go's \<^verbatim>\<open>os\<close>, \<^verbatim>\<open>io/ioutil\<close> and \<^verbatim>\<open>archive/zip\<close> packages that the
  code makes, on this filesystem: \<^verbatim>\<open>os.Stat\<close> succeeds where something exists at the
  path; \<^verbatim>\<open>os.MkdirAll\<close> creates the directory and the missing ones above it and fails
  where a file is in the way; \<^verbatim>\<open>os.RemoveAll\<close> removes a path and all below it;
  \<^verbatim>\<open>os.Remove\<close> is only called on temporary files.
\<close>

definition os_Stat :: "string \<Rightarrow> world \<Rightarrow> error + node" where
  "os_Stat path w =
     (case nodes w path of
        None \<Rightarrow> Inl (FilesystemError ''no such file or directory'')
      | Some n \<Rightarrow> Inr n)"

definition path_prefixes :: "string \<Rightarrow> string list" where
  "path_prefixes path =
     (let parts = strings_Split path Separator
      in filter (\<lambda>p. p \<noteq> [])
           (map (\<lambda>n. strings_Join (take n parts) Separator) [1..<Suc (length parts)]))"

fun mkdirs :: "string list \<Rightarrow> nat \<Rightarrow> world \<Rightarrow> error option \<times> world" where
  "mkdirs [] perm w = (None, w)"
| "mkdirs (p # ps) perm w =
     (case nodes w p of
        Some (Dir m) \<Rightarrow> mkdirs ps perm w
      | Some (File b) \<Rightarrow> (Some (FilesystemError ''not a directory''), w)
      | None \<Rightarrow> mkdirs ps perm (w\<lparr>nodes := (nodes w)(p \<mapsto> Dir perm)\<rparr>))"

definition os_MkdirAll :: "string \<Rightarrow> nat \<Rightarrow> world \<Rightarrow> error option \<times> world" where
  "os_MkdirAll path perm w =
     (if path = [] then (Some (FilesystemError ''no such file or directory''), w)
      else mkdirs (path_prefixes path) perm w)"

definition parent_exists :: "string \<Rightarrow> world \<Rightarrow> bool" where
  "parent_exists path w =
     (let parent = strings_Join (butlast (strings_Split path Separator)) Separator
      in parent = [] \<or> (case nodes w parent of Some (Dir m) \<Rightarrow> True | _ \<Rightarrow> False))"

definition os_RemoveAll :: "string \<Rightarrow> world \<Rightarrow> world" where
  "os_RemoveAll path w =
     (if path = [] then w
      else w\<lparr>nodes := (\<lambda>p. if p = path \<or> take (Suc (length path)) p = path @ [Separator]
                           then None else nodes w p)\<rparr>)"

definition os_Remove :: "string \<Rightarrow> world \<Rightarrow> world" where
  "os_Remove name w = w\<lparr>temps := (temps w)(name := None)\<rparr>"

definition ioutil_ReadAll :: "reader \<Rightarrow> error + bytes" where
  "ioutil_ReadAll r = (case fault r of Some e \<Rightarrow> Inl e | None \<Rightarrow> Inr (content r))"

definition zip_OpenReader :: "string \<Rightarrow> world \<Rightarrow> error + zip_file list" where
  "zip_OpenReader name w =
     (case temps w name of
        None \<Rightarrow> Inl (FilesystemError ''no such file or directory'')
      | Some r \<Rightarrow> r)"

text \<open>The permission bits that Go writes \<^verbatim>\<open>0755\<close> (an octal numeral).\<close>

definition perm_0755 :: nat where
  "perm_0755 = 493"

subsection \<open>The default file and directory functions\<close>

text \<open>
  \<^verbatim>\<open>createDirectory\<close>, \<^verbatim>\<open>writeNewFile\<close> and \<^verbatim>\<open>readExistingFile\<close>, the functions that
  the command passes to \<^verbatim>\<open>writeResultsToDisk\<close>. \<^verbatim>\<open>os.OpenFile\<close> with
  \<^verbatim>\<open>O_CREATE|O_WRONLY|O_TRUNC\<close> fails on a directory and where the directory of the
  path does not exist; a copy that fails leaves what it had written.
\<close>

definition createDirectory :: DirectoryCreator where
  "createDirectory path fileMode w =
     (case os_Stat path w of
        Inl err \<Rightarrow> os_MkdirAll path fileMode w
      | Inr info \<Rightarrow> (None, w))"

definition writeNewFile :: FileCreator where
  "writeNewFile fileReader path w =
     (case nodes w path of
        Some (Dir m) \<Rightarrow> (Some (FilesystemError ''is a directory''), w)
      | _ \<Rightarrow>
          if \<not> parent_exists path w
          then (Some (FilesystemError ''no such file or directory''), w)
          else (fault fileReader, w\<lparr>nodes := (nodes w)(path \<mapsto> File (content fileReader))\<rparr>))"

definition readExistingFile :: FileReader where
  "readExistingFile path w =
     (case nodes w path of
        Some (File b) \<Rightarrow> Inr b
      | Some (Dir m) \<Rightarrow> Inl (FilesystemError ''is a directory'')
      | None \<Rightarrow> Inl (FilesystemError ''no such file or directory''))"

subsection \<open>Extraction\<close>

definition combineJSONFile :: "reader \<Rightarrow> FileReader \<Rightarrow> string \<Rightarrow> world \<Rightarrow> error + reader" where
  "combineJSONFile newFileReader existingFileReader path w =
     (case existingFileReader path w of
        Inl err \<Rightarrow> Inl err
      | Inr existingBytes \<Rightarrow>
          (case ioutil_ReadAll newFileReader of
             Inl err \<Rightarrow> Inl err
           | Inr newBytes \<Rightarrow>
               (case MergePatch existingBytes newBytes of
                  Inl err \<Rightarrow> Inl err
                | Inr combined \<Rightarrow>
                    (case json_Indent combined of
                       Inl err \<Rightarrow> Inl err
                     | Inr indented \<Rightarrow> Inr (Reader indented None)))))"

text \<open>
  The second half of \<^verbatim>\<open>readFileFromZipAndWriteToFilesystem\<close>, from the test of
  \<^verbatim>\<open>file.FileInfo().IsDir()\<close> on: a directory entry is created, any other entry is
  opened and written, merged first if the path is written already.
\<close>

definition writeEntry ::
  "zip_file \<Rightarrow> string \<Rightarrow> bool \<Rightarrow> FileCreator \<Rightarrow> DirectoryCreator \<Rightarrow> FileReader \<Rightarrow>
   world \<Rightarrow> error option \<times> world" where
  "writeEntry file fullPath fileAlreadyWritten fileCreator directoryCreator existingFileReader w =
     (if IsDir file then directoryCreator fullPath (Mode file) w
      else
        (case Open file of
           Inl err \<Rightarrow> (Some err, w)
         | Inr fileReader \<Rightarrow>
             if fileAlreadyWritten then
               (case combineJSONFile fileReader existingFileReader fullPath w of
                  Inl err \<Rightarrow> (Some err, w)
                | Inr combined \<Rightarrow> fileCreator combined fullPath w)
             else fileCreator fileReader fullPath w))"

text \<open>
  The first half creates the directory part of the path, and returns at once where the
  path has none.
\<close>

definition readFileFromZipAndWriteToFilesystem ::
  "zip_file \<Rightarrow> string \<Rightarrow> bool \<Rightarrow> FileCreator \<Rightarrow> DirectoryCreator \<Rightarrow> FileReader \<Rightarrow>
   world \<Rightarrow> error option \<times> world" where
  "readFileFromZipAndWriteToFilesystem file fullPath fileAlreadyWritten
       fileCreator directoryCreator existingFileReader w =
     (let pathParts = strings_Split fullPath Separator
      in if 0 < length pathParts then
           (let intermediatePath = filepath_Join [strings_Join (butlast pathParts) Separator]
            in if intermediatePath \<noteq> [] then
                 (case directoryCreator intermediatePath perm_0755 w of
                    (Some err, w') \<Rightarrow> (Some err, w')
                  | (None, w') \<Rightarrow>
                      writeEntry file fullPath fileAlreadyWritten
                        fileCreator directoryCreator existingFileReader w')
               else (None, w))
         else writeEntry file fullPath fileAlreadyWritten
                fileCreator directoryCreator existingFileReader w)"

text \<open>
  The loop of \<^verbatim>\<open>unzip\<close> over the entries of the archive. \<open>pathMap\<close> is the Go map that
  \<^verbatim>\<open>writeResultsToDisk\<close> creates and every call of \<^verbatim>\<open>unzip\<close> updates in place; here
  it is passed in and returned.
\<close>

fun unzip_files ::
  "zip_file list \<Rightarrow> string \<Rightarrow> (string \<rightharpoonup> bool) \<Rightarrow> FileCreator \<Rightarrow> DirectoryCreator \<Rightarrow>
   FileReader \<Rightarrow> world \<Rightarrow> (string \<rightharpoonup> bool) \<times> world" where
  "unzip_files [] targetLocation pathMap fileCreator directoryCreator existingFileReader w =
     (pathMap, w)"
| "unzip_files (file # files) targetLocation pathMap
       fileCreator directoryCreator existingFileReader w =
     (let path = filepath_Join [targetLocation, filepath_FromSlash (Name file)];
          fileAlreadyWritten = (pathMap path \<noteq> None);
          pathMap' = (if \<not> fileAlreadyWritten then pathMap(path \<mapsto> True) else pathMap);
          (err, w') = readFileFromZipAndWriteToFilesystem file path fileAlreadyWritten
                        fileCreator directoryCreator existingFileReader w
      in unzip_files files targetLocation pathMap'
           fileCreator directoryCreator existingFileReader w')"

definition unzip ::
  "string \<Rightarrow> string \<Rightarrow> (string \<rightharpoonup> bool) \<Rightarrow> FileCreator \<Rightarrow> DirectoryCreator \<Rightarrow>
   FileReader \<Rightarrow> world \<Rightarrow> error option \<times> (string \<rightharpoonup> bool) \<times> world" where
  "unzip sourceFileLocation targetLocation pathMap
       fileCreator directoryCreator existingFileReader w =
     (case zip_OpenReader sourceFileLocation w of
        Inl err \<Rightarrow> (Some err, pathMap, w)
      | Inr files \<Rightarrow>
          (case (if targetLocation \<noteq> [] then directoryCreator targetLocation perm_0755 w
                 else (None, w)) of
             (Some err, w') \<Rightarrow> (Some err, pathMap, w')
           | (None, w') \<Rightarrow>
               (let (pathMap', w'') =
                      unzip_files files targetLocation pathMap
                        fileCreator directoryCreator existingFileReader w'
                in (None, pathMap', w''))))"

subsection \<open>The run over all payloads\<close>

definition ioutil_TempFile :: "world \<Rightarrow> (error + string) \<times> world" where
  "ioutil_TempFile w =
     (case tempfiles w of
        [] \<Rightarrow> (Inl (FilesystemError ''no temporary file''), w)
      | Inl err # rest \<Rightarrow> (Inl err, w\<lparr>tempfiles := rest\<rparr>)
      | Inr name # rest \<Rightarrow>
          (Inr name, w\<lparr>tempfiles := rest, temps := (temps w)(name \<mapsto> Inl ArchiveOpenError)\<rparr>))"

definition createTemporaryZipFile :: "archive_payload \<Rightarrow> world \<Rightarrow> (error + string) \<times> world" where
  "createTemporaryZipFile data w =
     (case ioutil_TempFile w of
        (Inl err, w') \<Rightarrow> (Inl err, w')
      | (Inr name, w') \<Rightarrow>
          (case copy_error data of
             Some err \<Rightarrow> (Inl err, w')
           | None \<Rightarrow> (Inr name, w'\<lparr>temps := (temps w')(name \<mapsto> archive data)\<rparr>)))"

definition getFriendlyURL :: "string \<Rightarrow> world \<Rightarrow> error + string" where
  "getFriendlyURL targetDir w = (if targetDir = [] then exe_dir w else Inr targetDir)"

text \<open>
  The loop of \<^verbatim>\<open>writeResultsToDisk\<close> over the payloads. \<open>deferred\<close> collects the
  names that \<^verbatim>\<open>defer os.Remove(tmpFileName)\<close> has registered, the latest first; they
  run when \<^verbatim>\<open>writeResultsToDisk\<close> returns.
\<close>

fun write_results ::
  "archive_payload list \<Rightarrow> string \<Rightarrow> (string \<rightharpoonup> bool) \<Rightarrow> string list \<Rightarrow> FileCreator \<Rightarrow>
   DirectoryCreator \<Rightarrow> FileReader \<Rightarrow> world \<Rightarrow> error option \<times> string list \<times> world" where
  "write_results [] targetDir pathMap deferred fileCreator directoryCreator existingFileReader w =
     (None, deferred, w)"
| "write_results (result # results) targetDir pathMap deferred
       fileCreator directoryCreator existingFileReader w =
     (case createTemporaryZipFile result w of
        (Inl err, w') \<Rightarrow> (Some err, deferred, w')
      | (Inr tmpFileName, w') \<Rightarrow>
          (case unzip tmpFileName targetDir pathMap
                  fileCreator directoryCreator existingFileReader w' of
             (Some err, pathMap', w'') \<Rightarrow> (Some err, tmpFileName # deferred, w'')
           | (None, pathMap', w'') \<Rightarrow>
               write_results results targetDir pathMap' (tmpFileName # deferred)
                 fileCreator directoryCreator existingFileReader w''))"

text \<open>
  \<open>targetDir\<close> is the global of the command line; \<open>dirNames\<close> stands for
  \<^verbatim>\<open>types.GetMetadataTypeDirNames()\<close>, which is not part of the sources.
\<close>

definition writeResultsToDisk ::
  "string \<Rightarrow> string list \<Rightarrow> archive_payload list \<Rightarrow> FileCreator \<Rightarrow> DirectoryCreator \<Rightarrow>
   FileReader \<Rightarrow> world \<Rightarrow> error option \<times> world" where
  "writeResultsToDisk targetDir dirNames results fileCreator directoryCreator existingFileReader w =
     (case getFriendlyURL targetDir w of
        Inl err \<Rightarrow> (Some err, w)
      | Inr targetDirFriendly \<Rightarrow>
          (let w1 = fold (\<lambda>dirName. os_RemoveAll (filepath_Join [targetDir, dirName])) dirNames w;
               (err, deferred, w2) =
                 write_results results targetDir Map.empty []
                   fileCreator directoryCreator existingFileReader w1
           in (err, fold os_Remove deferred w2)))"

subsection \<open>Building an archive\<close>

text \<open>
  One call of the function that \<^verbatim>\<open>Archive\<close> gives to \<^verbatim>\<open>filepath.Walk\<close>: the path and
  the error that the walk passes, whether the path is a directory, and what the calls
  made for it answer (\<^verbatim>\<open>filepath.Rel\<close>, \<^verbatim>\<open>os.Open\<close>, \<^verbatim>\<open>zipWriter.Create\<close>).
\<close>

record walk_item =
  filePath :: string
  walkErr :: "error option"
  isDir :: bool
  rel :: "error + string"
  opened :: "error + reader"
  createErr :: "error option"

record zip_writer =
  entries :: "(string \<times> bytes) list"
  closed :: bool
  closeErr :: "error option"

definition zip_Close :: "zip_writer \<Rightarrow> error option \<times> zip_writer" where
  "zip_Close zw = (closeErr zw, zw\<lparr>closed := True\<rparr>)"

definition walkFn :: "walk_item \<Rightarrow> zip_writer \<Rightarrow> error option \<times> zip_writer" where
  "walkFn item zw =
     (if walkErr item \<noteq> None \<or> isDir item then (walkErr item, zw)
      else
        (case rel item of
           Inl err \<Rightarrow> (Some err, zw)
         | Inr relativeFilePath \<Rightarrow>
             (let archivePath = path_Join (filepath_SplitList relativeFilePath)
              in case opened item of
                   Inl err \<Rightarrow> (Some err, zw)
                 | Inr file \<Rightarrow>
                     (case createErr item of
                        Some err \<Rightarrow> (Some err, zw)
                      | None \<Rightarrow>
                          (fault file,
                           zw\<lparr>entries := entries zw @ [(archivePath, content file)]\<rparr>)))))"

fun filepath_Walk :: "walk_item list \<Rightarrow> zip_writer \<Rightarrow> error option \<times> zip_writer" where
  "filepath_Walk [] zw = (None, zw)"
| "filepath_Walk (item # items) zw =
     (case walkFn item zw of
        (Some err, zw') \<Rightarrow> (Some err, zw')
      | (None, zw') \<Rightarrow> filepath_Walk items zw')"

definition Archive :: "walk_item list \<Rightarrow> zip_writer \<Rightarrow> error option \<times> zip_writer" where
  "Archive items zipWriter =
     (case filepath_Walk items zipWriter of
        (Some err, zw) \<Rightarrow> (Some err, zw)
      | (None, zw) \<Rightarrow> zip_Close zw)"

subsection \<open>The path registry along a run\<close>

text \<open>The path that \<^verbatim>\<open>unzip\<close> computes for an entry.\<close>

definition destination :: "string \<Rightarrow> zip_file \<Rightarrow> string" where
  "destination targetLocation file =
     filepath_Join [targetLocation, filepath_FromSlash (Name file)]"

text \<open>
  The values that \<^verbatim>\<open>fileAlreadyWritten\<close> takes in the loop of \<^verbatim>\<open>unzip\<close> along a
  sequence of paths, starting from the registry \<open>pathMap\<close>.
\<close>

fun written_flags :: "string list \<Rightarrow> (string \<rightharpoonup> bool) \<Rightarrow> bool list" where
  "written_flags [] pathMap = []"
| "written_flags (path # paths) pathMap =
     (let fileAlreadyWritten = (pathMap path \<noteq> None);
          pathMap' = (if \<not> fileAlreadyWritten then pathMap(path \<mapsto> True) else pathMap)
      in fileAlreadyWritten # written_flags paths pathMap')"

text \<open>A path element that \<^verbatim>\<open>filepath.Clean\<close> keeps as it is.\<close>

definition simple_name :: "string \<Rightarrow> bool" where
  "simple_name s = (s \<noteq> [] \<and> s \<noteq> ''.'' \<and> s \<noteq> ''..'' \<and> list_all (\<lambda>c. c \<noteq> Separator) s)"

subsection \<open>Inputs of the examples\<close>

definition empty_world :: "(error + string) list \<Rightarrow> world" where
  "empty_world names =
     \<lparr>nodes = Map.empty, temps = Map.empty, tempfiles = names, exe_dir = Inr ''/usr/local/bin''\<rparr>"

definition file_entry :: "string \<Rightarrow> bytes \<Rightarrow> zip_file" where
  "file_entry name body =
     \<lparr>Name = name, IsDir = False, Mode = 420, Open = Inr (Reader body None)\<rparr>"

definition payload :: "zip_file list \<Rightarrow> archive_payload" where
  "payload files = \<lparr>copy_error = None, archive = Inr files\<rparr>"

definition unreadable_entry :: "string \<Rightarrow> zip_file" where
  "unreadable_entry name = \<lparr>Name = name, IsDir = False, Mode = 420, Open = Inl StreamError\<rparr>"

definition broken_payload :: archive_payload where
  "broken_payload = \<lparr>copy_error = Some StreamError, archive = Inr []\<rparr>"

definition fresh_writer :: zip_writer where
  "fresh_writer = \<lparr>entries = [], closed = False, closeErr = None\<rparr>"

definition readable_item :: walk_item where
  "readable_item =
     \<lparr>filePath = ''site/pages/a.json'', walkErr = None, isDir = False,
      rel = Inr ''site/pages/a.json'', opened = Inr (Reader ''{}'' None), createErr = None\<rparr>"

definition unreadable_item :: walk_item where
  "unreadable_item =
     \<lparr>filePath = ''site/pages/b.json'', walkErr = None, isDir = False,
      rel = Inr ''site/pages/b.json'', opened = Inl (FilesystemError ''permission denied''),
      createErr = None\<rparr>"

definition site_world :: world where
  "site_world =
     \<lparr>nodes = [''pages'' \<mapsto> Dir 493, ''README'' \<mapsto> File ''skuid site''],
      temps = Map.empty, tempfiles = [], exe_dir = Inr ''/usr/local/bin''\<rparr>"

definition foo_first :: bytes where
  \<open>foo_first = ''{"name":"Foo","id":1}''\<close>

definition foo_second :: bytes where
  \<open>foo_second = ''{"id":2,"extra":true}''\<close>

definition foo_document :: bytes where
  \<open>foo_document = ''{"name":"Foo","id":2,"extra":true}''\<close>

definition foo_combined :: bytes where
  \<open>foo_combined = ''{"name":"Foo","extra":true,"id":2}''\<close>

definition foo_indented :: bytes where
  \<open>foo_indented =
     ''{\<newline>'' @ CHR 0x09 # ''"name": "Foo",\<newline>'' @ CHR 0x09 # ''"extra": true,\<newline>'' @
     CHR 0x09 # ''"id": 2\<newline>}''\<close>

text \<open>A file reader that answers with the same bytes for every path.\<close>

definition fixed_reader :: "bytes \<Rightarrow> FileReader" where
  "fixed_reader b = (\<lambda>path w. Inr b)"

text \<open>A text given by its lines, each with the number of tabs before it.\<close>

fun tabbed_lines :: "(nat \<times> string) list \<Rightarrow> string" where
  "tabbed_lines [] = []"
| "tabbed_lines [(n, t)] = replicate n (CHR 0x09) @ t"
| "tabbed_lines ((n, t) # l # ls) = replicate n (CHR 0x09) @ t @ CHR 0x0A # tabbed_lines (l # ls)"

definition doc_existing :: bytes where
  \<open>doc_existing = ''{"b":2,"name":"Foo","a":1,"o":{"y":2,"name":"n","x":1},"z":[1]}''\<close>

definition doc_incoming :: bytes where
  \<open>doc_incoming = ''{"a":null,"o":{"y":3},"z":{"q":null,"r":1},"n":[null,2]}''\<close>

definition doc_merged :: bytes where
  \<open>doc_merged = tabbed_lines
     [(0, ''{''),
      (1, ''"name": "Foo",''),
      (1, ''"b": 2,''),
      (1, ''"n": [''),
      (2, ''null,''),
      (2, ''2''),
      (1, ''],''),
      (1, ''"o": {''),
      (2, ''"name": "n",''),
      (2, ''"x": 1,''),
      (2, ''"y": 3''),
      (1, ''},''),
      (1, ''"z": {''),
      (2, ''"r": 1''),
      (1, ''}''),
      (0, ''}'')]\<close>

section \<open>Properties\<close>

subsection \<open>Errors of single entries\<close>

text \<open>
  Claim C1 says that a failure to merge or write one entry aborts the extraction of the
  archive and reaches the caller. \<^verbatim>\<open>unzip\<close> calls
  \<^verbatim>\<open>readFileFromZipAndWriteToFilesystem\<close> without looking at the error it returns. In
  the first run below the second archive brings \<^verbatim>\<open>files/logo.png\<close> again: merging it
  with the file that the first archive wrote fails, since that file is not JSON. The run
  goes on all the same: it writes the next entry of the same archive and returns no
  error. In the second run an entry cannot be opened; again the next entry is written
  and no error is returned.
\<close>

theorem unzip_ignores_entry_error:
  "fst (readFileFromZipAndWriteToFilesystem (file_entry ''files/logo.png'' ''PNG'')
          ''files/logo.png'' True writeNewFile createDirectory readExistingFile
          (snd (writeResultsToDisk [] [] [payload [file_entry ''files/logo.png'' ''PNG'']]
                  writeNewFile createDirectory readExistingFile
                  (empty_world [Inr ''/tmp/skuid1'']))))
     = Some MergeError
   \<and> fst (writeResultsToDisk [] []
            [payload [file_entry ''files/logo.png'' ''PNG''],
             payload [file_entry ''files/logo.png'' ''PNG'', file_entry ''pages/Home.json'' ''{}'']]
            writeNewFile createDirectory readExistingFile
            (empty_world [Inr ''/tmp/skuid1'', Inr ''/tmp/skuid2'']))
     = None
   \<and> nodes (snd (writeResultsToDisk [] []
            [payload [file_entry ''files/logo.png'' ''PNG''],
             payload [file_entry ''files/logo.png'' ''PNG'', file_entry ''pages/Home.json'' ''{}'']]
            writeNewFile createDirectory readExistingFile
            (empty_world [Inr ''/tmp/skuid1'', Inr ''/tmp/skuid2''])))
       ''pages/Home.json''
     = Some (File ''{}'')
   \<and> fst (readFileFromZipAndWriteToFilesystem (unreadable_entry ''pages/Bad.json'')
          ''pages/Bad.json'' False writeNewFile createDirectory readExistingFile
          (empty_world []))
     = Some StreamError
   \<and> fst (writeResultsToDisk [] []
            [payload [unreadable_entry ''pages/Bad.json'', file_entry ''pages/Home.json'' ''{}'']]
            writeNewFile createDirectory readExistingFile (empty_world [Inr ''/tmp/skuid1'']))
     = None
   \<and> nodes (snd (writeResultsToDisk [] []
            [payload [unreadable_entry ''pages/Bad.json'', file_entry ''pages/Home.json'' ''{}'']]
            writeNewFile createDirectory readExistingFile (empty_world [Inr ''/tmp/skuid1''])))
       ''pages/Home.json''
     = Some (File ''{}'')"
  by code_simp

subsection \<open>Entries at the top of the archive\<close>

text \<open>
  Claim C6 says that an entry at the top level of the archive, such as \<^verbatim>\<open>root.txt\<close>,
  is skipped, so that no file appears in the target root. The code looks for a directory
  part in the joined path, not in the name of the entry: with the target directory
  \<^verbatim>\<open>out\<close> the joined path is \<^verbatim>\<open>out/root.txt\<close>, its directory part is \<^verbatim>\<open>out\<close>,
  and the file is written in the target root. With no target directory the same entry
  is skipped.
\<close>

theorem root_entry_written_under_target:
  "fst (writeResultsToDisk ''out'' [] [payload [file_entry ''root.txt'' ''hello'']]
          writeNewFile createDirectory readExistingFile (empty_world [Inr ''/tmp/skuid1'']))
     = None
   \<and> nodes (snd (writeResultsToDisk ''out'' [] [payload [file_entry ''root.txt'' ''hello'']]
            writeNewFile createDirectory readExistingFile (empty_world [Inr ''/tmp/skuid1''])))
       ''out/root.txt''
     = Some (File ''hello'')
   \<and> nodes (snd (writeResultsToDisk [] [] [payload [file_entry ''root.txt'' ''hello'']]
            writeNewFile createDirectory readExistingFile (empty_world [Inr ''/tmp/skuid1''])))
       ''root.txt''
     = None"
  by code_simp

subsection \<open>Closing the archive writer\<close>

lemma walkFn_closed:
  "walkFn item zw = (r, zw') \<Longrightarrow> closed zw' = closed zw \<and> closeErr zw' = closeErr zw"
  by (auto simp: walkFn_def Let_def split: if_splits sum.splits option.splits)

lemma filepath_Walk_closed:
  "filepath_Walk items zw = (r, zw') \<Longrightarrow> closed zw' = closed zw \<and> closeErr zw' = closeErr zw"
proof (induction items arbitrary: zw)
  case Nil
  then show ?case by simp
next
  case (Cons item items)
  obtain r1 zw1 where step: "walkFn item zw = (r1, zw1)"
    by (cases "walkFn item zw")
  show ?case
  proof (cases r1)
    case None
    with Cons.prems step have "filepath_Walk items zw1 = (r, zw')" by simp
    from Cons.IH [OF this] walkFn_closed [OF step] show ?thesis by simp
  next
    case (Some e)
    with Cons.prems step have "zw' = zw1" by simp
    with walkFn_closed [OF step] show ?thesis by simp
  qed
qed

text \<open>
  Claim C7 says that \<^verbatim>\<open>Archive\<close> closes the archive writer in every case, also when
  the walk fails partway. It returns the error of the walk before it reaches
  \<^verbatim>\<open>zipWriter.Close()\<close>: after a file that cannot be opened, the writer is left open.
\<close>

theorem Archive_failed_walk_not_closed:
  "fst (Archive [readable_item, unreadable_item] fresh_writer)
     = Some (FilesystemError ''permission denied'')
   \<and> \<not> closed (snd (Archive [readable_item, unreadable_item] fresh_writer))"
  by code_simp

text \<open>
  Claim C7 as amended: when the walk fails, \<^verbatim>\<open>Archive\<close> returns the error of the walk
  and leaves the archive writer as open or closed as it was; when the walk succeeds,
  \<^verbatim>\<open>Archive\<close> closes the writer and returns what closing returns.
\<close>

theorem Archive_closes_after_successful_walk:
  assumes "Archive items zw = (err, zw')"
  shows "case fst (filepath_Walk items zw) of
           Some e \<Rightarrow> err = Some e \<and> closed zw' = closed zw
         | None \<Rightarrow> err = closeErr zw \<and> closed zw'"
proof -
  obtain r zw1 where walk: "filepath_Walk items zw = (r, zw1)"
    by (cases "filepath_Walk items zw")
  from filepath_Walk_closed [OF walk] assms walk show ?thesis
    by (cases r) (auto simp: Archive_def zip_Close_def)
qed

theorem Archive_closes_after_successful_walk_witness:
  "fst (filepath_Walk [readable_item] fresh_writer) = None
   \<and> Archive [readable_item] fresh_writer
       = (None, \<lparr>entries = [(''site/pages/a.json'', ''{}'')], closed = True, closeErr = None\<rparr>)"
proof -
  have run: "Archive [readable_item] fresh_writer
       = (None, \<lparr>entries = [(''site/pages/a.json'', ''{}'')], closed = True, closeErr = None\<rparr>)"
    by code_simp
  have walk: "fst (filepath_Walk [readable_item] fresh_writer) = None"
    by code_simp
  from Archive_closes_after_successful_walk [OF run] walk run show ?thesis
    by simp
qed

subsection \<open>Temporary files\<close>

text \<open>
  Claim C8 says that the temporary file of a payload is deleted on every way out, also
  when spooling the payload fails. \<^verbatim>\<open>createTemporaryZipFile\<close> creates the file and then
  copies the payload; when the copy fails it returns the error without the name, and
  \<^verbatim>\<open>writeResultsToDisk\<close> returns before it registers the removal. The file is still
  there when the run is over.
\<close>

theorem temporary_file_left_after_failed_copy:
  "fst (writeResultsToDisk [] [] [broken_payload] writeNewFile createDirectory readExistingFile
          (empty_world [Inr ''/tmp/skuid1'']))
     = Some StreamError
   \<and> temps (snd (writeResultsToDisk [] [] [broken_payload]
            writeNewFile createDirectory readExistingFile (empty_world [Inr ''/tmp/skuid1''])))
       ''/tmp/skuid1''
     \<noteq> None"
  by code_simp

subsection \<open>The default directory creator\<close>

text \<open>
  Claim C10: where something exists at the path, a directory or a regular file,
  \<^verbatim>\<open>createDirectory\<close> returns no error and leaves the filesystem as it is; it calls
  \<^verbatim>\<open>os.MkdirAll\<close> only where \<^verbatim>\<open>os.Stat\<close> fails, that is where nothing exists at the
  path.
\<close>

theorem createDirectory_existing_path:
  "(\<forall>n. nodes w path = Some n \<longrightarrow> createDirectory path fileMode w = (None, w))
   \<and> (createDirectory path fileMode w \<noteq> (None, w) \<longrightarrow>
        (\<exists>err. os_Stat path w = Inl err)
        \<and> createDirectory path fileMode w = os_MkdirAll path fileMode w)"
  by (auto simp: createDirectory_def os_Stat_def split: option.splits)

theorem createDirectory_existing_path_witness:
  "createDirectory ''README'' 493 site_world = (None, site_world)
   \<and> createDirectory ''pages'' 493 site_world = (None, site_world)
   \<and> nodes (snd (createDirectory ''apps'' 493 site_world)) ''apps'' = Some (Dir 493)"
proof -
  have reg: "nodes site_world ''README'' = Some (File ''skuid site'')"
    by (simp add: site_world_def)
  have dir: "nodes site_world ''pages'' = Some (Dir 493)"
    by (simp add: site_world_def)
  have new: "nodes (snd (createDirectory ''apps'' 493 site_world)) ''apps'' = Some (Dir 493)"
    by code_simp
  from createDirectory_existing_path [of site_world "''README''" 493] reg
  have "createDirectory ''README'' 493 site_world = (None, site_world)" by blast
  moreover from createDirectory_existing_path [of site_world "''pages''" 493] dir
  have "createDirectory ''pages'' 493 site_world = (None, site_world)" by blast
  ultimately show ?thesis using new by simp
qed

subsection \<open>The path registry\<close>





lemma written_flags_length [simp]: "length (written_flags ps pm) = length ps"
  by (induction ps arbitrary: pm) (simp_all add: Let_def)





subsection \<open>Two archives with the same path\<close>

lemma strings_Split_no_sep:
  "sep \<notin> set s \<Longrightarrow> strings_Split s sep = [s]"
  by (induction s) auto

lemma strings_Split_append:
  "sep \<notin> set d \<Longrightarrow> strings_Split (d @ sep # r) sep = d # strings_Split r sep"
  by (induction d) auto

lemma simple_name_no_sep: "simple_name s \<Longrightarrow> Separator \<notin> set s"
  by (auto simp: simple_name_def list_all_iff)

lemma simple_name_hd: "simple_name s \<Longrightarrow> s \<noteq> [] \<and> hd s \<noteq> Separator"
  by (cases s) (auto simp: simple_name_def)

lemma split_dir_file:
  assumes "simple_name d" "simple_name f"
  shows "strings_Split (d @ Separator # f) Separator = [d, f]"
  using assms
  by (simp add: strings_Split_append strings_Split_no_sep simple_name_no_sep)

lemma clean_dir_file:
  assumes "simple_name d" "simple_name f"
  shows "filepath_Clean (d @ Separator # f) = d @ Separator # f"
proof -
  from assms have "d \<noteq> []" "d \<noteq> ''.''" "d \<noteq> ''..''" "f \<noteq> []" "f \<noteq> ''.''" "f \<noteq> ''..''"
    by (auto simp: simple_name_def)
  moreover from simple_name_hd [OF assms(1)] have "hd (d @ Separator # f) \<noteq> Separator"
    by simp
  ultimately show ?thesis
    by (simp add: filepath_Clean_def Let_def split_dir_file [OF assms])
qed

lemma clean_dir:
  assumes "simple_name d"
  shows "filepath_Clean d = d"
proof -
  from assms have "d \<noteq> []" "d \<noteq> ''.''" "d \<noteq> ''..''"
    by (auto simp: simple_name_def)
  moreover from simple_name_hd [OF assms] have "hd d \<noteq> Separator" by simp
  ultimately show ?thesis
    by (simp add: filepath_Clean_def Let_def strings_Split_no_sep simple_name_no_sep [OF assms])
qed

lemma destination_dir_file:
  assumes "simple_name d" "simple_name f"
  shows "destination [] (file_entry (d @ Separator # f) c) = d @ Separator # f"
  using clean_dir_file [OF assms]
  by (simp add: destination_def filepath_Join_def file_entry_def filepath_FromSlash_def
      Separator_def map_idI)

lemma RemoveAll_empty:
  "nodes w = Map.empty \<Longrightarrow>
     fold (\<lambda>dirName. os_RemoveAll (filepath_Join [t, dirName])) dirNames w = w"
proof (induction dirNames)
  case Nil
  show ?case by simp
next
  case (Cons a dirNames)
  have "(\<lambda>p. if p = filepath_Join [t, a]
                 \<or> take (Suc (length (filepath_Join [t, a]))) p = filepath_Join [t, a] @ [Separator]
              then None else nodes w p) = nodes w"
    using Cons.prems by (simp add: fun_eq_iff)
  then have "os_RemoveAll (filepath_Join [t, a]) w = w"
    by (simp add: os_RemoveAll_def)
  with Cons show ?case by simp
qed

lemma createDirectory_new:
  assumes "simple_name d" "nodes w d = None"
  shows "createDirectory d perm w = (None, w\<lparr>nodes := (nodes w)(d \<mapsto> Dir perm)\<rparr>)"
proof -
  from assms(1) have ne: "d \<noteq> []" by (simp add: simple_name_def)
  have "path_prefixes d = [d]"
    using ne by (simp add: path_prefixes_def Let_def strings_Split_no_sep
        simple_name_no_sep [OF assms(1)])
  with assms(2) ne show ?thesis
    by (simp add: createDirectory_def os_Stat_def os_MkdirAll_def)
qed

lemma dir_file_neq: "simple_name d \<Longrightarrow> d @ Separator # f \<noteq> d"
  by simp

lemma read_entry_dir_file:
  assumes "simple_name d" "simple_name f"
  shows "readFileFromZipAndWriteToFilesystem e (d @ Separator # f) flag fc dc fr w =
     (case dc d perm_0755 w of
        (Some err, w') \<Rightarrow> (Some err, w')
      | (None, w') \<Rightarrow> writeEntry e (d @ Separator # f) flag fc dc fr w')"
proof -
  from assms(1) have "d \<noteq> []" by (simp add: simple_name_def)
  then show ?thesis
    by (simp add: readFileFromZipAndWriteToFilesystem_def Let_def split_dir_file [OF assms]
        filepath_Join_def clean_dir [OF assms(1)])
qed

lemma parent_dir_file:
  assumes "simple_name d" "simple_name f" "nodes w d = Some (Dir m)"
  shows "parent_exists (d @ Separator # f) w"
  using assms(3) by (simp add: parent_exists_def Let_def split_dir_file [OF assms(1,2)])

lemma some_bool: "(\<exists>y::bool. y) = True"
  by auto

text \<open>
  Claim C2: two archives of one run bring the same path \<open>d/f\<close> into an empty
  filesystem, the first with the content \<open>c1\<close>, the second with \<open>c2\<close>. The run
  succeeds, and the file holds the merge of \<open>c2\<close> onto \<open>c1\<close>, indented: the registry
  that the first archive filled tells the second that the path is written already.
\<close>

theorem second_archive_merged_onto_first:
  assumes d: "simple_name d" and f: "simple_name f"
    and empty: "nodes w = Map.empty"
    and names: "tempfiles w = Inr t1 # Inr t2 # rest"
    and exe: "exe_dir w = Inr exe"
    and merged: "MergePatch c1 c2 = Inr combined"
    and indented: "json_Indent combined = Inr indented"
  shows "fst (writeResultsToDisk [] dirNames
            [payload [file_entry (d @ Separator # f) c1], payload [file_entry (d @ Separator # f) c2]]
            writeNewFile createDirectory readExistingFile w) = None
       \<and> nodes (snd (writeResultsToDisk [] dirNames
            [payload [file_entry (d @ Separator # f) c1], payload [file_entry (d @ Separator # f) c2]]
            writeNewFile createDirectory readExistingFile w)) (d @ Separator # f)
          = Some (File indented)"
proof -
  let ?p = "d @ Separator # f"
  let ?e1 = "file_entry ?p c1" and ?e2 = "file_entry ?p c2"
  have clean: "fold (\<lambda>dirName. os_RemoveAll (filepath_Join [[], dirName])) dirNames w = w"
    by (rule RemoveAll_empty [OF empty])
  define wa where "wa = w\<lparr>tempfiles := Inr t2 # rest, temps := (temps w)(t1 \<mapsto> Inr [?e1])\<rparr>"
  have spool1: "createTemporaryZipFile (payload [?e1]) w = (Inr t1, wa)"
    by (simp add: createTemporaryZipFile_def ioutil_TempFile_def names payload_def wa_def)
  define wb where "wb = wa\<lparr>nodes := (nodes wa)(d \<mapsto> Dir perm_0755)\<rparr>"
  define wc where "wc = wb\<lparr>nodes := (nodes wb)(?p \<mapsto> File c1)\<rparr>"
  have wa_nodes: "nodes wa = Map.empty" by (simp add: wa_def empty)
  have mk1: "createDirectory d perm_0755 wa = (None, wb)"
    using createDirectory_new [OF d, of wa perm_0755] by (simp add: wa_nodes wb_def)
  have wb_d: "nodes wb d = Some (Dir perm_0755)" by (simp add: wb_def)
  have wb_p: "nodes wb ?p = None" using dir_file_neq [OF d] by (simp add: wb_def wa_nodes)
  have write1: "writeNewFile (Reader c1 None) ?p wb = (None, wc)"
    using parent_dir_file [OF d f wb_d] wb_p by (simp add: writeNewFile_def wc_def)
  have entry1: "readFileFromZipAndWriteToFilesystem ?e1 ?p False
                  writeNewFile createDirectory readExistingFile wa = (None, wc)"
    by (simp add: read_entry_dir_file [OF d f] mk1 writeEntry_def file_entry_def write1)
  have unzip1: "unzip t1 [] Map.empty writeNewFile createDirectory readExistingFile wa
                  = (None, [?p \<mapsto> True], wc)"
    using destination_dir_file [OF d f, of c1] entry1
    by (simp add: unzip_def zip_OpenReader_def wa_def Let_def destination_def)
  define wd where "wd = wc\<lparr>tempfiles := rest, temps := (temps wc)(t2 \<mapsto> Inr [?e2])\<rparr>"
  have spool2: "createTemporaryZipFile (payload [?e2]) wc = (Inr t2, wd)"
    by (simp add: createTemporaryZipFile_def ioutil_TempFile_def payload_def
        wd_def wc_def wb_def wa_def)
  define we where "we = wd\<lparr>nodes := (nodes wd)(?p \<mapsto> File indented)\<rparr>"
  have wd_d: "nodes wd d = Some (Dir perm_0755)"
    using dir_file_neq [OF d, of f] by (simp add: wd_def wc_def wb_def)
  have wd_p: "nodes wd ?p = Some (File c1)" by (simp add: wd_def wc_def)
  have mk2: "createDirectory d perm_0755 wd = (None, wd)"
    using wd_d by (simp add: createDirectory_def os_Stat_def)
  have comb: "combineJSONFile (Reader c2 None) readExistingFile ?p wd
                = Inr (Reader indented None)"
    by (simp add: combineJSONFile_def readExistingFile_def wd_p ioutil_ReadAll_def
        merged indented)
  have write2: "writeNewFile (Reader indented None) ?p wd = (None, we)"
    using parent_dir_file [OF d f wd_d] wd_p by (simp add: writeNewFile_def we_def)
  have entry2: "readFileFromZipAndWriteToFilesystem ?e2 ?p True
                  writeNewFile createDirectory readExistingFile wd = (None, we)"
    by (simp add: read_entry_dir_file [OF d f] mk2 writeEntry_def file_entry_def comb write2)
  have unzip2: "unzip t2 [] [?p \<mapsto> True] writeNewFile createDirectory readExistingFile wd
                  = (None, [?p \<mapsto> True], we)"
    using destination_dir_file [OF d f, of c2] entry2
    by (simp add: unzip_def zip_OpenReader_def wd_def Let_def destination_def some_bool)
  have run: "write_results [payload [?e1], payload [?e2]] [] Map.empty []
               writeNewFile createDirectory readExistingFile w = (None, [t2, t1], we)"
    by (simp add: spool1 unzip1 spool2 unzip2)
  have "writeResultsToDisk [] dirNames [payload [?e1], payload [?e2]]
          writeNewFile createDirectory readExistingFile w
        = (None, fold os_Remove [t2, t1] we)"
    by (simp add: writeResultsToDisk_def getFriendlyURL_def exe clean run
        del: write_results.simps)
  moreover have "nodes (fold os_Remove [t2, t1] we) ?p = Some (File indented)"
    by (simp add: os_Remove_def we_def)
  ultimately show ?thesis by simp
qed

text \<open>
  The example of the spec: \<^verbatim>\<open>pages/Foo.xml.json\<close> with \<^verbatim>\<open>{"name":"Foo","id":1}\<close>, then
  with \<^verbatim>\<open>{"id":2,"extra":true}\<close>. The file holds the three fields, \<^verbatim>\<open>name\<close> first, one
  per line behind one tab, and it is the document \<^verbatim>\<open>{"name":"Foo","id":2,"extra":true}\<close>
  with its keys in the order of the serializer.
\<close>

theorem second_archive_merged_onto_first_witness:
  "fst (writeResultsToDisk [] [''pages'', ''apps'']
          [payload [file_entry ''pages/Foo.xml.json'' foo_first],
           payload [file_entry ''pages/Foo.xml.json'' foo_second]]
          writeNewFile createDirectory readExistingFile
          (empty_world [Inr ''/tmp/skuid1'', Inr ''/tmp/skuid2''])) = None
   \<and> nodes (snd (writeResultsToDisk [] [''pages'', ''apps'']
          [payload [file_entry ''pages/Foo.xml.json'' foo_first],
           payload [file_entry ''pages/Foo.xml.json'' foo_second]]
          writeNewFile createDirectory readExistingFile
          (empty_world [Inr ''/tmp/skuid1'', Inr ''/tmp/skuid2'']))) ''pages/Foo.xml.json''
       = Some (File foo_indented)
   \<and> json_Unmarshal foo_indented
       = Some (JObject [(''name'', JString ''Foo''), (''extra'', JBool True), (''id'', JNumber ''2'')])
   \<and> map_option sort_json (json_Unmarshal foo_document) = json_Unmarshal foo_indented
   \<and> tab_indented False False 0 foo_indented"
proof -
  have d: "simple_name ''pages''" and f: "simple_name ''Foo.xml.json''"
    by code_simp+
  have empty: "nodes (empty_world [Inr ''/tmp/skuid1'', Inr ''/tmp/skuid2'']) = Map.empty"
    and names: "tempfiles (empty_world [Inr ''/tmp/skuid1'', Inr ''/tmp/skuid2''])
                  = Inr ''/tmp/skuid1'' # Inr ''/tmp/skuid2'' # []"
    and exe: "exe_dir (empty_world [Inr ''/tmp/skuid1'', Inr ''/tmp/skuid2''])
                  = Inr ''/usr/local/bin''"
    by (simp_all add: empty_world_def)
  have merged: "MergePatch foo_first foo_second = Inr foo_combined"
    by code_simp
  have indented: "json_Indent foo_combined = Inr foo_indented"
    by code_simp
  have doc: "json_Unmarshal foo_indented
       = Some (JObject [(''name'', JString ''Foo''), (''extra'', JBool True), (''id'', JNumber ''2'')])"
    by code_simp
  have same: "map_option sort_json (json_Unmarshal foo_document) = json_Unmarshal foo_indented"
    by code_simp
  have tabs: "tab_indented False False 0 foo_indented"
    by code_simp
  from second_archive_merged_onto_first [OF d f empty names exe merged indented,
      of "[''pages'', ''apps'']"] doc same tabs
  show ?thesis by (simp add: Separator_def)
qed

subsection \<open>Reading back what was written\<close>

lemma scan_string_append:
  "scan_string s = Some (b, r') \<Longrightarrow> scan_string (s @ r) = Some (b, r' @ r)"
proof (induction s arbitrary: b r' rule: scan_string.induct)
  case 1
  then show ?case by simp
next
  case (2 c cs)
  show ?case
  proof (cases "c = CHR 0x22")
    case True
    with "2.prems" show ?thesis by simp
  next
    case nq: False
    show ?thesis
    proof (cases "c = CHR 0x5C")
      case True
      with nq "2.prems" obtain e cs' where cs: "cs = e # cs'"
        by (cases cs) auto
      show ?thesis
      proof (cases "is_escape e")
        case esc: True
        with True nq cs "2.prems" obtain b' where
          "scan_string cs' = Some (b', r')" "b = c # e # b'"
          by (auto split: option.splits)
        with "2.IH"(1) [OF nq True cs esc, of b' r'] True nq cs esc show ?thesis
          by simp
      next
        case nesc: False
        with True nq cs "2.prems" have u: "e = CHR ''u'' \<and> 4 \<le> length cs' \<and> list_all is_hex (take 4 cs')"
          by (auto split: if_splits)
        with True nq cs nesc "2.prems" obtain b' where
          b': "scan_string (drop 4 cs') = Some (b', r')" "b = c # e # take 4 cs' @ b'"
          by (auto split: option.splits)
        from "2.IH"(2) [OF nq True cs nesc u b'(1)] have
          "scan_string (drop 4 cs' @ r) = Some (b', r' @ r)" .
        with True nq cs nesc u b' show ?thesis
          by simp
      qed
    next
      case nb: False
      with nq "2.prems" obtain b' where
        b': "\<not> (of_char c :: nat) < 0x20" "scan_string cs = Some (b', r')" "b = c # b'"
        by (auto split: option.splits if_splits)
      from "2.IH"(3) [OF nq nb b'(1) b'(2)] nq nb b' show ?thesis
        by simp
    qed
  qed
qed

lemma scan_string_result:
  "scan_string s = Some (b, r) \<Longrightarrow> s = b @ CHR 0x22 # r \<and> string_body_ok b"
proof (induction s arbitrary: b r rule: scan_string.induct)
  case 1
  then show ?case by simp
next
  case (2 c cs)
  show ?case
  proof (cases "c = CHR 0x22")
    case True
    with "2.prems" show ?thesis by (simp add: string_body_ok_def)
  next
    case nq: False
    show ?thesis
    proof (cases "c = CHR 0x5C")
      case True
      with nq "2.prems" obtain e cs' where cs: "cs = e # cs'"
        by (cases cs) auto
      show ?thesis
      proof (cases "is_escape e")
        case esc: True
        with True nq cs "2.prems" obtain b' where
          b': "scan_string cs' = Some (b', r)" "b = c # e # b'"
          by (auto split: option.splits)
        from "2.IH"(1) [OF nq True cs esc b'(1)] True nq cs esc b' show ?thesis
          by (simp add: string_body_ok_def)
      next
        case nesc: False
        with True nq cs "2.prems" have u: "e = CHR ''u'' \<and> 4 \<le> length cs' \<and> list_all is_hex (take 4 cs')"
          by (auto split: if_splits)
        with True nq cs nesc "2.prems" obtain b' where
          b': "scan_string (drop 4 cs') = Some (b', r)" "b = c # e # take 4 cs' @ b'"
          by (auto split: option.splits)
        from "2.IH"(2) [OF nq True cs nesc u b'(1)] have
          ih: "drop 4 cs' = b' @ CHR 0x22 # r" "string_body_ok b'" by simp_all
        have "cs' = take 4 cs' @ drop 4 cs'" by simp
        with ih(1) have "cs' = take 4 cs' @ b' @ CHR 0x22 # r" by simp
        with True nq cs nesc u b' ih(2) show ?thesis
          by (simp add: string_body_ok_def)
      qed
    next
      case nb: False
      with nq "2.prems" obtain b' where
        b': "\<not> (of_char c :: nat) < 0x20" "scan_string cs = Some (b', r)" "b = c # b'"
        by (auto split: option.splits if_splits)
      from "2.IH"(3) [OF nq nb b'(1) b'(2)] nq nb b' show ?thesis
        by (simp add: string_body_ok_def)
    qed
  qed
qed

lemma scan_string_body:
  "string_body_ok b \<Longrightarrow> scan_string (b @ CHR 0x22 # r) = Some (b, r)"
  using scan_string_append [of "b @ [CHR 0x22]" b "[]" r]
  by (simp add: string_body_ok_def)


lemma newline_ws: "list_all is_ws (newline p d)"
  by (auto simp: newline_def is_ws_def list_all_iff)

lemma skip_ws_newline [simp]: "skip_ws (newline p d @ s) = skip_ws s"
  using newline_ws [of p d] by (simp add: skip_ws_def list_all_iff)

lemma skip_ws_colon: "skip_ws (colon p @ s) = CHR '':'' # (if p then CHR '' '' # s else s)"
  by (simp add: colon_def skip_ws_def is_ws_def)

lemma skip_ws_idem [simp]: "skip_ws (skip_ws s) = skip_ws s"
  by (simp add: skip_ws_def)

lemma skip_ws_space [simp]: "skip_ws (CHR '' '' # s) = skip_ws s"
  by (simp add: skip_ws_def is_ws_def)

lemma parse_value_ws: "skip_ws s = skip_ws s' \<Longrightarrow> parse_value n s = parse_value n s'"
  by (cases n) simp_all

lemma parse_members_ws: "skip_ws s = skip_ws s' \<Longrightarrow> parse_members n s = parse_members n s'"
  by (cases n) simp_all

lemma parse_elements_ws: "skip_ws s = skip_ws s' \<Longrightarrow> parse_elements n s = parse_elements n s'"
  by (cases n) (simp_all add: parse_value_ws [of s s'])

lemma starts_value_skip: "starts_value s \<Longrightarrow> skip_ws s = s"
  by (cases s) (simp_all add: starts_value_def skip_ws_def)

lemma number_ok_Cons:
  assumes "number_ok n"
  obtains c n' where "n = c # n'" "is_num_char c"
proof -
  from assms have "n \<noteq> []"
    by (auto simp: number_ok_def valid_number_def Let_def)
  then obtain c n' where "n = c # n'" by (cases n) auto
  moreover with assms have "is_num_char c" by (simp add: number_ok_def)
  ultimately show ?thesis by (rule that)
qed

lemma num_char_cases:
  "is_num_char c \<Longrightarrow>
     \<not> is_ws c \<and> c \<noteq> CHR ''{'' \<and> c \<noteq> CHR ''}'' \<and> c \<noteq> CHR ''['' \<and> c \<noteq> CHR '']''
     \<and> c \<noteq> CHR 0x22 \<and> c \<noteq> CHR ''t'' \<and> c \<noteq> CHR ''f'' \<and> c \<noteq> CHR ''n''"
  by (auto simp: is_num_char_def is_digit_def is_ws_def)

lemma number_span:
  assumes "list_all is_num_char n" "delimited r"
  shows "takeWhile is_num_char (n @ r) = n \<and> dropWhile is_num_char (n @ r) = r"
proof -
  from assms(2) have "takeWhile is_num_char r = [] \<and> dropWhile is_num_char r = r"
    by (cases r) (simp_all add: delimited_def)
  with assms(1) show ?thesis
    by (simp add: list_all_iff)
qed

lemma render_starts: "lexemes_ok v \<Longrightarrow> starts_value (render p d v @ r)"
proof (cases v)
  case (JNumber n)
  assume "lexemes_ok v"
  with JNumber have "number_ok n" by simp
  then obtain c n' where "n = c # n'" "is_num_char c" by (rule number_ok_Cons)
  with JNumber num_char_cases [of c] show ?thesis
    by (simp add: starts_value_def)
next
  case (JArray vs)
  then show ?thesis by (cases vs) (simp_all add: starts_value_def is_ws_def)
next
  case (JObject kvs)
  then show ?thesis by (cases kvs) (simp_all add: starts_value_def is_ws_def)
qed (simp_all add: starts_value_def is_ws_def)

lemma parse_atom_null: "parse_value (Suc n) (''null'' @ r) = Some (JNull, r)"
  by (simp add: skip_ws_def is_ws_def)

lemma parse_atom_true: "parse_value (Suc n) (''true'' @ r) = Some (JBool True, r)"
  by (simp add: skip_ws_def is_ws_def)

lemma parse_atom_false: "parse_value (Suc n) (''false'' @ r) = Some (JBool False, r)"
  by (simp add: skip_ws_def is_ws_def)

lemma parse_atom_string:
  "string_body_ok b \<Longrightarrow> parse_value (Suc n) (CHR 0x22 # b @ CHR 0x22 # r) = Some (JString b, r)"
  by (simp add: skip_ws_def is_ws_def scan_string_body)

lemma parse_atom_number:
  assumes "number_ok m" "delimited r"
  shows "parse_value (Suc n) (m @ r) = Some (JNumber m, r)"
proof -
  from assms(1) obtain c m' where m: "m = c # m'" "is_num_char c" by (rule number_ok_Cons)
  from assms have span: "takeWhile is_num_char (m @ r) = m" "dropWhile is_num_char (m @ r) = r"
    and valid: "valid_number m"
    by (simp_all add: number_span number_ok_def)
  from m num_char_cases [OF m(2)] have "skip_ws (m @ r) = c # m' @ r"
    by (simp add: skip_ws_def)
  with m num_char_cases [OF m(2)] span valid show ?thesis
    by simp
qed


lemma delimited_simps [simp]:
  "delimited (newline p d @ CHR ''}'' # r)"
  "delimited (newline p d @ CHR '']'' # r)"
  "delimited (CHR '','' # r)"
  by (simp_all add: delimited_def newline_def is_num_char_def is_digit_def)

lemma starts_valueE:
  assumes "starts_value s"
  obtains c cs where "s = c # cs" "\<not> is_ws c" "c \<noteq> CHR ''}''" "c \<noteq> CHR '']''" "skip_ws s = s"
  using assms starts_value_skip [OF assms]
  by (cases s) (auto simp: starts_value_def)

lemma parse_array:
  assumes "starts_value s" "parse_elements m s = Some (vs, r)"
  shows "parse_value (Suc m) (CHR ''['' # newline p d @ s) = Some (JArray vs, r)"
proof -
  from assms(1) obtain c cs where s: "s = c # cs" "c \<noteq> CHR '']''" "skip_ws s = s"
    by (rule starts_valueE)
  have "parse_elements m (newline p d @ s) = parse_elements m s"
    by (rule parse_elements_ws) simp
  with assms(2) s show ?thesis
    by (simp add: skip_ws_def [of "CHR ''['' # _"] is_ws_def)
qed

lemma parse_object:
  assumes "parse_members m (CHR 0x22 # s) = Some (kvs, r)"
  shows "parse_value (Suc m) (CHR ''{'' # newline p d @ CHR 0x22 # s) = Some (JObject kvs, r)"
proof -
  have q: "skip_ws (CHR 0x22 # s) = CHR 0x22 # s" by (simp add: skip_ws_def is_ws_def)
  have "parse_members m (newline p d @ CHR 0x22 # s) = parse_members m (CHR 0x22 # s)"
    by (rule parse_members_ws) simp
  with assms q show ?thesis
    by (simp add: skip_ws_def [of "CHR ''{'' # _"] is_ws_def)
qed

lemma parse_member:
  assumes "string_body_ok k" "parse_value m (v_text @ rest) = Some (v, rest)"
  shows "parse_members (Suc m) (CHR 0x22 # k @ [CHR 0x22] @ colon p @ v_text @ rest) =
     (case skip_ws rest of
        [] \<Rightarrow> None
      | c3 # r4 \<Rightarrow>
          if c3 = CHR '','' then
            (case parse_members m r4 of
               None \<Rightarrow> None
             | Some (kvs, r5) \<Rightarrow> Some ((k, v) # kvs, r5))
          else if c3 = CHR ''}'' then Some ([(k, v)], r4)
          else None)"
proof -
  have q: "skip_ws (CHR 0x22 # k @ [CHR 0x22] @ colon p @ v_text @ rest)
             = CHR 0x22 # k @ CHR 0x22 # colon p @ v_text @ rest"
    by (simp add: skip_ws_def is_ws_def)
  have "parse_value m (if p then CHR '' '' # v_text @ rest else v_text @ rest)
          = parse_value m (v_text @ rest)"
    by (rule parse_value_ws) simp
  with assms q show ?thesis
    by (simp add: scan_string_body skip_ws_colon)
qed

lemma parse_element:
  assumes "parse_value m (v_text @ rest) = Some (v, rest)"
  shows "parse_elements (Suc m) (v_text @ rest) =
     (case skip_ws rest of
        [] \<Rightarrow> None
      | c # r2 \<Rightarrow>
          if c = CHR '','' then
            (case parse_elements m r2 of
               None \<Rightarrow> None
             | Some (vs, r3) \<Rightarrow> Some (v # vs, r3))
          else if c = CHR '']'' then Some ([v], r2)
          else None)"
  using assms by simp


lemma skip_ws_close [simp]:
  "skip_ws (CHR ''}'' # r) = CHR ''}'' # r"
  "skip_ws (CHR '']'' # r) = CHR '']'' # r"
  by (simp_all add: skip_ws_def is_ws_def)

lemma skip_ws_comma [simp]: "skip_ws (CHR '','' # s) = CHR '','' # s"
  by (simp add: skip_ws_def is_ws_def)

lemma roundtrip:
  "lexemes_ok v \<Longrightarrow> fuel_of v \<le> n \<Longrightarrow> delimited r \<Longrightarrow>
     parse_value n (render p d v @ r) = Some (v, r)"
  "kvs \<noteq> [] \<Longrightarrow> list_all (\<lambda>kv. string_body_ok (fst kv) \<and> lexemes_ok (snd kv)) kvs \<Longrightarrow>
     fuel_members kvs \<le> n \<Longrightarrow>
     parse_members n (render_members p d kvs @ newline p d' @ CHR ''}'' # r) = Some (kvs, r)"
  "vs \<noteq> [] \<Longrightarrow> list_all lexemes_ok vs \<Longrightarrow> fuel_elements vs \<le> n \<Longrightarrow>
     parse_elements n (render_elements p d vs @ newline p d' @ CHR '']'' # r) = Some (vs, r)"
proof (induction p d v and p d kvs and p d vs arbitrary: n r and n r d' and n r d'
    rule: render_render_members_render_elements.induct)
  case (1 p d)
  then obtain m where "n = Suc m" by (cases n) auto
  then show ?case using parse_atom_null [of m r]
    by (simp del: parse_value.simps)
next
  case (2 p d b)
  then obtain m where "n = Suc m" by (cases n) auto
  then show ?case using parse_atom_true [of m r] parse_atom_false [of m r]
    by (simp del: parse_value.simps)
next
  case (3 p d x)
  then obtain m where "n = Suc m" by (cases n) auto
  with 3 show ?case using parse_atom_number [of x r m]
    by (simp del: parse_value.simps)
next
  case (4 p d x)
  then obtain m where "n = Suc m" by (cases n) auto
  with 4 show ?case using parse_atom_string [of x m r]
    by (simp del: parse_value.simps)
next
  case (5 p d)
  then obtain m where "n = Suc m" by (cases n) auto
  then show ?case by (simp add: skip_ws_def is_ws_def)
next
  case (6 p d v vs)
  then obtain m where n: "n = Suc m" "fuel_elements (v # vs) \<le> m" by (cases n) auto
  from "6.prems" have ok: "list_all lexemes_ok (v # vs)" by simp
  have elems: "parse_elements m (render_elements p (Suc d) (v # vs) @ newline p d @ CHR '']'' # r)
                 = Some (v # vs, r)"
    by (rule "6.IH" [OF _ ok n(2)]) simp
  from "6.prems" have "lexemes_ok v" by simp
  then have "starts_value (render_elements p (Suc d) (v # vs) @ newline p d @ CHR '']'' # r)"
    using render_starts [of v p "Suc d"] by simp
  from parse_array [OF this elems, of p "Suc d"] n show ?case
    by (simp del: parse_value.simps parse_members.simps parse_elements.simps)
next
  case (7 p d)
  then obtain m where "n = Suc m" by (cases n) auto
  then show ?case by (simp add: skip_ws_def is_ws_def)
next
  case (8 p d kv kvs)
  then obtain m where n: "n = Suc m" "fuel_members (kv # kvs) \<le> m" by (cases n) auto
  from "8.prems" have ok: "list_all (\<lambda>kv. string_body_ok (fst kv) \<and> lexemes_ok (snd kv)) (kv # kvs)"
    by simp
  have mems: "parse_members m (render_members p (Suc d) (kv # kvs) @ newline p d @ CHR ''}'' # r)
                 = Some (kv # kvs, r)"
    by (rule "8.IH" [OF _ ok n(2)]) simp
  obtain k v where kv: "kv = (k, v)" by (cases kv)
  from parse_object [of m _ "kv # kvs" r p "Suc d"] mems kv n show ?case
    by (simp del: parse_value.simps parse_members.simps parse_elements.simps)
next
  case (9 p d)
  then show ?case by simp
next
  case (10 p d k v kvs)
  from "10.prems" obtain m where n: "n = Suc m" "fuel_of v \<le> m" "fuel_members kvs \<le> m"
    by (cases n) auto
  from "10.prems" have k: "string_body_ok k" and v: "lexemes_ok v"
    and rest: "list_all (\<lambda>kv. string_body_ok (fst kv) \<and> lexemes_ok (snd kv)) kvs"
    by simp_all
  show ?case
  proof (cases "kvs = []")
    case True
    have "parse_value m (render p d v @ newline p d' @ CHR ''}'' # r)
            = Some (v, newline p d' @ CHR ''}'' # r)"
      by (rule "10.IH"(1) [OF v n(2)]) simp
    from parse_member [OF k this, of p] True n show ?thesis
      by (simp del: parse_value.simps parse_members.simps parse_elements.simps)
  next
    case False
    let ?tail = "CHR '','' # newline p d @ render_members p d kvs @ newline p d' @ CHR ''}'' # r"
    have val: "parse_value m (render p d v @ ?tail) = Some (v, ?tail)"
      by (rule "10.IH"(1) [OF v n(2)]) simp
    have "parse_members m (render_members p d kvs @ newline p d' @ CHR ''}'' # r) = Some (kvs, r)"
      by (rule "10.IH"(2) [OF False False rest n(3)])
    moreover have "parse_members m (newline p d @ render_members p d kvs @ newline p d' @ CHR ''}'' # r)
        = parse_members m (render_members p d kvs @ newline p d' @ CHR ''}'' # r)"
      by (rule parse_members_ws) simp
    ultimately show ?thesis
      using parse_member [OF k val, of p] False n
      by (simp del: parse_value.simps parse_members.simps parse_elements.simps)
  qed
next
  case (11 p d)
  then show ?case by simp
next
  case (12 p d v vs)
  from "12.prems" obtain m where n: "n = Suc m" "fuel_of v \<le> m" "fuel_elements vs \<le> m"
    by (cases n) auto
  from "12.prems" have v: "lexemes_ok v" and rest: "list_all lexemes_ok vs"
    by simp_all
  show ?case
  proof (cases "vs = []")
    case True
    have "parse_value m (render p d v @ newline p d' @ CHR '']'' # r)
            = Some (v, newline p d' @ CHR '']'' # r)"
      by (rule "12.IH"(1) [OF v n(2)]) simp
    from parse_element [OF this] True n show ?thesis
      by (simp del: parse_value.simps parse_members.simps parse_elements.simps)
  next
    case False
    let ?tail = "CHR '','' # newline p d @ render_elements p d vs @ newline p d' @ CHR '']'' # r"
    have val: "parse_value m (render p d v @ ?tail) = Some (v, ?tail)"
      by (rule "12.IH"(1) [OF v n(2)]) simp
    have "parse_elements m (render_elements p d vs @ newline p d' @ CHR '']'' # r) = Some (vs, r)"
      by (rule "12.IH"(2) [OF False False rest n(3)])
    moreover have "parse_elements m (newline p d @ render_elements p d vs @ newline p d' @ CHR '']'' # r)
        = parse_elements m (render_elements p d vs @ newline p d' @ CHR '']'' # r)"
      by (rule parse_elements_ws) simp
    ultimately show ?thesis
      using parse_element [OF val] False n
      by (simp del: parse_value.simps parse_members.simps parse_elements.simps)
  qed
qed


lemma fuel_le_length:
  "lexemes_ok v \<Longrightarrow> fuel_of v \<le> length (render p d v)"
  "list_all (\<lambda>kv. string_body_ok (fst kv) \<and> lexemes_ok (snd kv)) kvs \<Longrightarrow>
     fuel_members kvs \<le> length (render_members p d kvs)"
  "list_all lexemes_ok vs \<Longrightarrow> fuel_elements vs \<le> Suc (length (render_elements p d vs))"
proof (induction p d v and p d kvs and p d vs
    rule: render_render_members_render_elements.induct)
  case (3 p d n)
  then obtain c n' where "n = c # n'" by (auto elim: number_ok_Cons)
  then show ?case by simp
next
  case (10 p d k v kvs)
  then show ?case by (cases "kvs = []") (auto simp: colon_def)
next
  case (12 p d v vs)
  then show ?case by (cases "vs = []") auto
qed auto

lemma json_parse_render:
  assumes "lexemes_ok v"
  shows "json_parse (render p d v) = Some v"
proof -
  have "parse_value (length (render p d v)) (render p d v @ []) = Some (v, [])"
    by (rule roundtrip(1) [OF assms fuel_le_length(1) [OF assms]]) (simp add: delimited_def)
  then show ?thesis by (simp add: json_parse_def skip_ws_def)
qed

lemma scan_string_ok: "scan_string s = Some (b, r) \<Longrightarrow> string_body_ok b"
  by (simp add: scan_string_result)

lemma list_all_takeWhile: "list_all P (takeWhile P xs)"
  by (auto simp: list_all_iff dest: set_takeWhileD)

lemma parse_lexemes_ok_all:
  "(\<forall>s v r. parse_value n s = Some (v, r) \<longrightarrow> lexemes_ok v)
   \<and> (\<forall>s kvs r. parse_members n s = Some (kvs, r) \<longrightarrow>
         list_all (\<lambda>kv. string_body_ok (fst kv) \<and> lexemes_ok (snd kv)) kvs)
   \<and> (\<forall>s vs r. parse_elements n s = Some (vs, r) \<longrightarrow> list_all lexemes_ok vs)"
proof (induction n)
  case 0
  show ?case by simp
next
  case (Suc n)
  then have IHv: "\<And>s v r. parse_value n s = Some (v, r) \<Longrightarrow> lexemes_ok v"
    and IHm: "\<And>s kvs r. parse_members n s = Some (kvs, r) \<Longrightarrow>
         list_all (\<lambda>kv. string_body_ok (fst kv) \<and> lexemes_ok (snd kv)) kvs"
    and IHe: "\<And>s vs r. parse_elements n s = Some (vs, r) \<Longrightarrow> list_all lexemes_ok vs"
    by blast+
  show ?case
  proof (intro conjI allI impI)
    fix s v r
    assume "parse_value (Suc n) s = Some (v, r)"
    then consider
        (members) kvs s' where "v = JObject kvs" "parse_members n s' = Some (kvs, r)"
      | (elements) vs s' where "v = JArray vs" "parse_elements n s' = Some (vs, r)"
      | (str) b s' where "v = JString b" "scan_string s' = Some (b, r)"
      | (number) x where "v = JNumber x" "number_ok x"
      | (other) "v = JObject [] \<or> v = JArray [] \<or> v = JNull \<or> (\<exists>b. v = JBool b)"
      by (auto split: list.splits if_splits option.splits
          simp: number_ok_def list_all_takeWhile)
    then show "lexemes_ok v"
    proof cases
      case members
      with IHm show ?thesis by simp
    next
      case elements
      with IHe show ?thesis by simp
    next
      case str
      with scan_string_ok show ?thesis by simp
    next
      case number
      then show ?thesis by simp
    next
      case other
      then show ?thesis by auto
    qed
  next
    fix s kvs r
    assume "parse_members (Suc n) s = Some (kvs, r)"
    then consider
        (last) k v s1 r1 s2 r2 where "kvs = [(k, v)]"
          "scan_string s1 = Some (k, r1)" "parse_value n s2 = Some (v, r2)"
      | (more) k v s1 r1 s2 r2 kvs' s3 where "kvs = (k, v) # kvs'"
          "scan_string s1 = Some (k, r1)" "parse_value n s2 = Some (v, r2)"
          "parse_members n s3 = Some (kvs', r)"
      by (auto split: list.splits if_splits option.splits)
    then show "list_all (\<lambda>kv. string_body_ok (fst kv) \<and> lexemes_ok (snd kv)) kvs"
    proof cases
      case last
      with scan_string_ok IHv show ?thesis by simp
    next
      case more
      with scan_string_ok IHv IHm show ?thesis by simp
    qed
  next
    fix s vs r
    assume "parse_elements (Suc n) s = Some (vs, r)"
    then consider
        (last) v s1 r1 where "vs = [v]" "parse_value n s1 = Some (v, r1)"
      | (more) v s1 r1 vs' s2 where "vs = v # vs'" "parse_value n s1 = Some (v, r1)"
          "parse_elements n s2 = Some (vs', r)"
      by (auto split: list.splits if_splits option.splits)
    then show "list_all lexemes_ok vs"
    proof cases
      case last
      with IHv show ?thesis by simp
    next
      case more
      with IHv IHe show ?thesis by simp
    qed
  qed
qed

lemma json_parse_lexemes_ok: "json_parse s = Some v \<Longrightarrow> lexemes_ok v"
  using parse_lexemes_ok_all [of "length s"]
  by (fastforce simp: json_parse_def split: option.splits if_splits)

subsection \<open>Merging, sorting and reading documents\<close>

lemma list_all_update:
  "list_all P al \<Longrightarrow> P (k, v) \<Longrightarrow> list_all P (AList.update k v al)"
  by (induction al) auto

lemma list_all_delete:
  "list_all P al \<Longrightarrow> list_all P (AList.delete k al)"
  by (induction al) auto

lemma list_all_map_of:
  "list_all P al \<Longrightarrow> map_of al k = Some v \<Longrightarrow> P (k, v)"
  by (auto simp: list_all_iff dest: map_of_SomeD)

lemma update_fresh:
  "k \<notin> fst ` set al \<Longrightarrow> AList.update k v al = al @ [(k, v)]"
  by (induction al) auto

lemma merge_lexemes_ok:
  "lexemes_ok cur \<Longrightarrow> lexemes_ok patch \<Longrightarrow> lexemes_ok (merge cur patch)"
  "list_all (\<lambda>kv. string_body_ok (fst kv) \<and> lexemes_ok (snd kv)) doc \<Longrightarrow>
   list_all (\<lambda>kv. string_body_ok (fst kv) \<and> lexemes_ok (snd kv)) ps \<Longrightarrow>
   list_all (\<lambda>kv. string_body_ok (fst kv) \<and> lexemes_ok (snd kv)) (mergeDocs doc ps)"
proof (induction cur patch and doc ps rule: merge_mergeDocs.induct)
  case (1 cur patch)
  then show ?case by (cases cur) simp_all
next
  case (4 doc k v patch)
  let ?M = "\<lambda>kv. string_body_ok (fst kv) \<and> lexemes_ok (snd kv)"
  let ?cur = "case map_of doc k of Some cur \<Rightarrow> cur | None \<Rightarrow> JNull"
  from "4.prems" have k: "string_body_ok k" and v: "lexemes_ok v" and rest: "list_all ?M patch"
    by simp_all
  have cur: "lexemes_ok ?cur"
    using list_all_map_of [OF "4.prems"(1), of k] by (auto split: option.splits)
  show ?case
  proof (cases "v = JNull")
    case True
    with "4.IH"(2) list_all_delete [OF "4.prems"(1), of k] rest
    show ?thesis by simp
  next
    case False
    from "4.IH"(1) [OF False cur v] k have "?M (k, merge ?cur v)" by simp
    from "4.IH"(2) rest
      list_all_update [OF "4.prems"(1), of k "merge ?cur v", OF this] False
    show ?thesis by simp
  qed
qed simp_all

lemma merge_distinct_keys:
  "distinct_keys cur \<Longrightarrow> distinct_keys patch \<Longrightarrow> distinct_keys (merge cur patch)"
  "distinct (map fst doc) \<Longrightarrow> list_all (\<lambda>kv. distinct_keys (snd kv)) doc \<Longrightarrow>
   list_all (\<lambda>kv. distinct_keys (snd kv)) ps \<Longrightarrow>
   distinct (map fst (mergeDocs doc ps)) \<and>
   list_all (\<lambda>kv. distinct_keys (snd kv)) (mergeDocs doc ps)"
proof (induction cur patch and doc ps rule: merge_mergeDocs.induct)
  case (1 cur patch)
  then show ?case by (cases cur) simp_all
next
  case (4 doc k v patch)
  let ?M = "\<lambda>kv. distinct_keys (snd kv)"
  let ?cur = "case map_of doc k of Some cur \<Rightarrow> cur | None \<Rightarrow> JNull"
  from "4.prems" have v: "distinct_keys v" and rest: "list_all ?M patch"
    by simp_all
  have cur: "distinct_keys ?cur"
    using list_all_map_of [OF "4.prems"(2), of k] by (auto split: option.splits)
  show ?case
  proof (cases "v = JNull")
    case True
    with "4.IH"(2) distinct_delete [OF "4.prems"(1), of k]
      list_all_delete [OF "4.prems"(2), of k] rest
    show ?thesis by simp
  next
    case False
    from "4.IH"(1) [OF False cur v] have "?M (k, merge ?cur v)" by simp
    from "4.IH"(2) distinct_update [OF "4.prems"(1), of k "merge ?cur v"] rest
      list_all_update [OF "4.prems"(2), of k "merge ?cur v", OF this] False
    show ?thesis by simp
  qed
qed simp_all

lemma map_of_mergeDocs:
  "distinct (map fst ps) \<Longrightarrow>
     map_of (mergeDocs doc ps) k =
       (case map_of ps k of
          None \<Rightarrow> map_of doc k
        | Some v \<Rightarrow>
            if v = JNull then None
            else Some (merge (case map_of doc k of Some cur \<Rightarrow> cur | None \<Rightarrow> JNull) v))"
proof (induction ps arbitrary: doc)
  case Nil
  show ?case by simp
next
  case (Cons kv ps)
  obtain k0 v0 where kv: "kv = (k0, v0)" by (cases kv)
  from Cons.prems kv have d: "distinct (map fst ps)" and fresh: "k0 \<notin> fst ` set ps"
    by auto
  from fresh have none: "map_of ps k0 = None"
    by (simp add: map_of_eq_None_iff)
  show ?case
  proof (cases "k = k0")
    case True
    with none kv Cons.IH [OF d] show ?thesis
      by (simp add: update_conv' delete_conv' split: option.splits)
  next
    case False
    with kv Cons.IH [OF d] show ?thesis
      by (simp add: update_conv' delete_conv' split: option.splits)
  qed
qed


lemma unmarshal_lexemes_ok:
  "lexemes_ok v \<Longrightarrow> lexemes_ok (unmarshal_value v)"
  "list_all (\<lambda>kv. string_body_ok (fst kv) \<and> lexemes_ok (snd kv)) acc \<Longrightarrow>
   list_all (\<lambda>kv. string_body_ok (fst kv) \<and> lexemes_ok (snd kv)) kvs \<Longrightarrow>
   list_all (\<lambda>kv. string_body_ok (fst kv) \<and> lexemes_ok (snd kv)) (unmarshal_members acc kvs)"
proof (induction v and acc kvs rule: unmarshal_value_unmarshal_members.induct)
  case (2 vs)
  then show ?case by (simp add: list_all_iff)
next
  case (5 acc k v kvs)
  from "5.prems" "5.IH"(1) have "string_body_ok k \<and> lexemes_ok (unmarshal_value v)" by simp
  from list_all_update [OF "5.prems"(1), of k "unmarshal_value v"] this "5.IH"(2) "5.prems"(2)
  show ?case by simp
qed simp_all

lemma unmarshal_distinct_keys:
  "distinct_keys (unmarshal_value v)"
  "distinct (map fst acc) \<Longrightarrow> list_all (\<lambda>kv. distinct_keys (snd kv)) acc \<Longrightarrow>
   distinct (map fst (unmarshal_members acc kvs)) \<and>
   list_all (\<lambda>kv. distinct_keys (snd kv)) (unmarshal_members acc kvs)"
proof (induction v and acc kvs rule: unmarshal_value_unmarshal_members.induct)
  case (2 vs)
  then show ?case by (simp add: list_all_iff)
next
  case (5 acc k v kvs)
  from list_all_update [OF "5.prems"(2), of k "unmarshal_value v"] "5.IH"(1)
    distinct_update [OF "5.prems"(1), of k "unmarshal_value v"] "5.IH"(2)
  show ?case by simp
qed simp_all

lemma unmarshal_id:
  "distinct_keys v \<Longrightarrow> unmarshal_value v = v"
  "distinct (map fst (acc @ kvs)) \<Longrightarrow> list_all (\<lambda>kv. distinct_keys (snd kv)) kvs \<Longrightarrow>
   unmarshal_members acc kvs = acc @ kvs"
proof (induction v and acc kvs rule: unmarshal_value_unmarshal_members.induct)
  case (2 vs)
  then show ?case by (simp add: list_all_iff map_idI)
next
  case (5 acc k v kvs)
  from "5.prems" have fresh: "k \<notin> fst ` set acc" and v: "distinct_keys v"
    and rest: "list_all (\<lambda>kv. distinct_keys (snd kv)) kvs"
    by auto
  from "5.prems"(1) have "distinct (map fst ((acc @ [(k, v)]) @ kvs))" by simp
  with "5.IH"(2) rest update_fresh [OF fresh, of "unmarshal_value v"] "5.IH"(1) [OF v]
  show ?case by simp
qed simp_all


lemma string_less_irrefl: "\<not> string_less s s"
  by (induction s) simp_all

lemma string_less_trans:
  "string_less a b \<Longrightarrow> string_less b c \<Longrightarrow> string_less a c"
proof (induction a b arbitrary: c rule: string_less.induct)
  case (2 y ys)
  then show ?case by (cases c) simp_all
next
  case (4 x xs y ys)
  then show ?case by (cases c) auto
qed simp_all

lemma string_less_total: "a \<noteq> b \<Longrightarrow> string_less a b \<or> string_less b a"
proof (induction a b rule: string_less.induct)
  case (4 x xs y ys)
  show ?case
  proof (cases "x = y")
    case True
    with 4 show ?thesis by simp
  next
    case False
    then have "(of_char x :: nat) \<noteq> of_char y" by simp
    then have "(of_char x :: nat) < of_char y \<or> (of_char y :: nat) < of_char x"
      by linarith
    then show ?thesis by auto
  qed
qed simp_all

lemma Sort_total:
  "a \<noteq> b \<Longrightarrow> nameFirstKeySorter_Sort a b \<or> nameFirstKeySorter_Sort b a"
  using string_less_total [of a b] by (auto simp: nameFirstKeySorter_Sort_def)

lemma Sort_trans:
  "nameFirstKeySorter_Sort a b \<Longrightarrow> nameFirstKeySorter_Sort b c \<Longrightarrow> a \<noteq> b \<Longrightarrow> b \<noteq> c \<Longrightarrow>
     nameFirstKeySorter_Sort a c"
  using string_less_trans [of a b c]
  by (auto simp: nameFirstKeySorter_Sort_def split: if_splits)

lemma Sort_asym:
  "nameFirstKeySorter_Sort a b \<Longrightarrow> a \<noteq> b \<Longrightarrow> \<not> nameFirstKeySorter_Sort b a"
  using string_less_trans [of a b a] string_less_irrefl [of a]
  by (auto simp: nameFirstKeySorter_Sort_def split: if_splits)

lemma set_insert_key [simp]: "set (insert_key kv xs) = insert kv (set xs)"
  by (induction xs) auto

lemma distinct_insert_key [simp]:
  "distinct (map fst (insert_key kv xs)) \<longleftrightarrow> fst kv \<notin> fst ` set xs \<and> distinct (map fst xs)"
  by (induction xs) (auto simp: image_iff)

lemma sorted_insert_key:
  assumes "sorted_wrt (\<lambda>x y. nameFirstKeySorter_Sort (fst x) (fst y)) xs"
    and "fst kv \<notin> fst ` set xs" and "distinct (map fst xs)"
  shows "sorted_wrt (\<lambda>x y. nameFirstKeySorter_Sort (fst x) (fst y)) (insert_key kv xs)"
  using assms
proof (induction xs)
  case Nil
  show ?case by simp
next
  case (Cons x xs)
  from Cons.prems have ne: "fst kv \<noteq> fst x" by auto
  show ?case
  proof (cases "nameFirstKeySorter_Sort (fst kv) (fst x)")
    case True
    have "nameFirstKeySorter_Sort (fst kv) (fst y)" if "y \<in> set xs" for y
    proof -
      from that Cons.prems have "nameFirstKeySorter_Sort (fst x) (fst y)" "fst x \<noteq> fst y"
        by (auto simp: image_iff)
      with True ne show ?thesis by (blast intro: Sort_trans)
    qed
    with True Cons.prems show ?thesis by simp
  next
    case False
    with Sort_total [OF ne] have "nameFirstKeySorter_Sort (fst x) (fst kv)" by simp
    with False Cons show ?thesis by auto
  qed
qed

lemma sort_keys_Cons: "sort_keys (kv # kvs) = insert_key kv (sort_keys kvs)"
  by (simp add: sort_keys_def)

lemma sort_keys_Nil [simp]: "sort_keys [] = []"
  by (simp add: sort_keys_def)

lemma set_sort_keys [simp]: "set (sort_keys kvs) = set kvs"
  by (induction kvs) (simp_all add: sort_keys_Cons)

lemma distinct_sort_keys [simp]:
  "distinct (map fst (sort_keys kvs)) \<longleftrightarrow> distinct (map fst kvs)"
  by (induction kvs) (simp_all add: sort_keys_Cons)

lemma sorted_sort_keys:
  "distinct (map fst kvs) \<Longrightarrow>
     sorted_wrt (\<lambda>x y. nameFirstKeySorter_Sort (fst x) (fst y)) (sort_keys kvs)"
  by (induction kvs) (simp_all add: sort_keys_Cons sorted_insert_key)

lemma map_of_sort_keys:
  "distinct (map fst kvs) \<Longrightarrow> map_of (sort_keys kvs) = map_of kvs"
  by (simp add: map_of_inject_set)




lemma fst_comp_member [simp]: "fst \<circ> (\<lambda>(k, v). (k, f v)) = fst"
  by (auto simp: fun_eq_iff)

lemma map_fst_sorted_members [simp]:
  "map fst (map (\<lambda>(k, v). (k, f v)) kvs) = map fst kvs"
  by simp

lemma sort_json_lexemes_ok: "lexemes_ok v \<Longrightarrow> lexemes_ok (sort_json v)"
proof (induction v rule: sort_json.induct)
  case (1 kvs)
  then show ?case by (fastforce simp: list_all_iff)
next
  case (2 vs)
  then show ?case by (simp add: list_all_iff)
qed simp_all

lemma sort_json_distinct_keys: "distinct_keys v \<Longrightarrow> distinct_keys (sort_json v)"
proof (induction v rule: sort_json.induct)
  case (1 kvs)
  then show ?case by (fastforce simp: list_all_iff)
next
  case (2 vs)
  then show ?case by (simp add: list_all_iff)
qed simp_all


lemma map_of_sorted_members:
  "distinct (map fst kvs) \<Longrightarrow>
     map_of (sort_keys (map (\<lambda>(k, v). (k, sort_json v)) kvs)) k
       = map_option sort_json (map_of kvs k)"
proof -
  assume "distinct (map fst kvs)"
  then have "map_of (sort_keys (map (\<lambda>(k, v). (k, sort_json v)) kvs))
      = map_of (map (\<lambda>(k, v). (k, sort_json v)) kvs)"
    by (intro map_of_sort_keys) simp
  then show ?thesis by (simp add: map_of_map)
qed

lemma json_Unmarshal_ok:
  assumes "json_Unmarshal s = Some v"
  shows "lexemes_ok v \<and> distinct_keys v"
proof -
  from assms obtain u where u: "json_parse s = Some u" "v = unmarshal_value u"
    by (auto simp: json_Unmarshal_def)
  from json_parse_lexemes_ok [OF u(1)] u(2) show ?thesis
    by (simp add: unmarshal_lexemes_ok unmarshal_distinct_keys)
qed

lemma json_Unmarshal_render:
  "lexemes_ok v \<Longrightarrow> distinct_keys v \<Longrightarrow> json_Unmarshal (render p d v) = Some v"
  by (simp add: json_Unmarshal_def json_parse_render unmarshal_id)

lemma merged_ok:
  assumes "json_Unmarshal a = Some (JObject A)" "json_Unmarshal b = Some (JObject B)"
  shows "lexemes_ok (JObject (mergeDocs A B)) \<and> distinct_keys (JObject (mergeDocs A B))"
proof -
  from json_Unmarshal_ok [OF assms(1)] json_Unmarshal_ok [OF assms(2)]
    merge_lexemes_ok(1) [of "JObject A" "JObject B"]
    merge_distinct_keys(1) [of "JObject A" "JObject B"]
  show ?thesis by simp
qed

lemma json_Indent_Marshal:
  "lexemes_ok v \<Longrightarrow> json_Indent (json_Marshal v) = Inr (render True 0 (sort_json v))"
  by (simp add: json_Indent_def json_Marshal_def json_parse_render sort_json_lexemes_ok)

lemma MergePatch_objects:
  assumes "json_Unmarshal a = Some (JObject A)" "json_Unmarshal b = Some (JObject B)"
  shows "MergePatch a b = Inr (json_Marshal (JObject (mergeDocs A B)))"
  using assms by (simp add: MergePatch_def)

subsection \<open>The merged file\<close>

lemma combine_objects:
  assumes ex: "fr path w = Inr existing"
    and A: "json_Unmarshal existing = Some (JObject A)"
    and B: "json_Unmarshal incoming = Some (JObject B)"
  shows "combineJSONFile (Reader incoming None) fr path w
           = Inr (Reader (render True 0 (sort_json (JObject (mergeDocs A B)))) None)"
  using merged_ok [OF A B]
  by (simp add: combineJSONFile_def ex ioutil_ReadAll_def MergePatch_objects [OF A B]
      json_Indent_Marshal)

lemma combine_success:
  assumes "combineJSONFile newFileReader fr path w = Inr out"
  obtains existing incoming A B where
    "fr path w = Inr existing" "newFileReader = Reader incoming None"
    "json_Unmarshal existing = Some (JObject A)" "json_Unmarshal incoming = Some (JObject B)"
proof -
  from assms obtain existing incoming combined where
      ex: "fr path w = Inr existing" and rd: "ioutil_ReadAll newFileReader = Inr incoming"
      and mp: "MergePatch existing incoming = Inr combined"
    by (auto simp: combineJSONFile_def split: sum.splits)
  from rd have r: "newFileReader = Reader incoming None"
    by (cases newFileReader) (auto simp: ioutil_ReadAll_def split: option.splits)
  from mp obtain A B where
      "json_Unmarshal existing = Some (JObject A)" "json_Unmarshal incoming = Some (JObject B)"
    by (auto simp: MergePatch_def split: option.splits json.splits)
  with ex r show ?thesis by (rule that)
qed

lemma sorted_unique:
  assumes "sorted_wrt (\<lambda>x y. nameFirstKeySorter_Sort (fst x) (fst y)) xs"
    and "sorted_wrt (\<lambda>x y. nameFirstKeySorter_Sort (fst x) (fst y)) ys"
    and "distinct (map fst xs)" and "distinct (map fst ys)" and "set xs = set ys"
  shows "xs = ys"
  using assms
proof (induction xs arbitrary: ys)
  case Nil
  then show ?case by simp
next
  case (Cons x xs)
  from Cons.prems(5) obtain y ys' where ys: "ys = y # ys'" by (cases ys) auto
  have xy: "x = y"
  proof (rule ccontr)
    assume ne: "x \<noteq> y"
    with Cons.prems(5) ys have x_in: "x \<in> set ys'" and y_in: "y \<in> set xs" by auto
    from x_in Cons.prems(2,4) ys
    have "nameFirstKeySorter_Sort (fst y) (fst x)" "fst y \<noteq> fst x"
      by (auto simp: image_iff)
    moreover from y_in Cons.prems(1) have "nameFirstKeySorter_Sort (fst x) (fst y)" by auto
    ultimately show False using Sort_asym by blast
  qed
  from Cons.prems(3) have "x \<notin> set xs" by (auto simp: image_iff)
  moreover from Cons.prems(4) ys xy have "x \<notin> set ys'" by (auto simp: image_iff)
  ultimately have "set xs = set ys'" using Cons.prems(5) ys xy by auto
  with Cons.IH [of ys'] Cons.prems ys xy show ?case by simp
qed

lemma sort_keys_cong:
  assumes "distinct (map fst xs)" "distinct (map fst ys)" "set xs = set ys"
  shows "sort_keys xs = sort_keys ys"
  using sorted_sort_keys [OF assms(1)] sorted_sort_keys [OF assms(2)] assms
  by (intro sorted_unique) simp_all

lemma canon:
  assumes "distinct (map fst d)" "distinct (map fst d')"
    and "\<And>k. map_option sort_json (map_of d k) = map_option sort_json (map_of d' k)"
  shows "sort_json (JObject d) = sort_json (JObject d')"
proof -
  let ?X = "map (\<lambda>(k, v). (k, sort_json v)) d" and ?Y = "map (\<lambda>(k, v). (k, sort_json v)) d'"
  have "map_of ?X = map_of ?Y"
    using assms(3) by (simp add: fun_eq_iff map_of_map)
  moreover have "distinct (map fst ?X)" "distinct (map fst ?Y)"
    using assms(1,2) by simp_all
  ultimately have "set ?X = set ?Y" by (simp add: map_of_inject_set)
  with \<open>distinct (map fst ?X)\<close> \<open>distinct (map fst ?Y)\<close> have "sort_keys ?X = sort_keys ?Y"
    by (rule sort_keys_cong)
  then show ?thesis by simp
qed

lemma canon_conv:
  assumes "distinct (map fst d)" "distinct (map fst d')"
    and "sort_json (JObject d) = sort_json (JObject d')"
  shows "map_option sort_json (map_of d k) = map_option sort_json (map_of d' k)"
  using map_of_sorted_members [OF assms(1), of k] map_of_sorted_members [OF assms(2), of k]
    assms(3)
  by simp

lemma sort_json_idem: "distinct_keys x \<Longrightarrow> sort_json (sort_json x) = sort_json x"
proof (induction x)
  case (JArray vs)
  then show ?case by (simp add: list_all_iff)
next
  case (JObject kvs)
  let ?X = "map (\<lambda>(k, v). (k, sort_json v)) kvs"
  from JObject.prems have d: "distinct (map fst kvs)" by simp
  then have dX: "distinct (map fst (sort_keys ?X))" by simp
  have "map_option sort_json (map_of (sort_keys ?X) k) = map_option sort_json (map_of kvs k)"
    for k
  proof (cases "map_of kvs k")
    case None
    with map_of_sorted_members [OF d, of k] show ?thesis by simp
  next
    case (Some v)
    then have "(k, v) \<in> set kvs" by (rule map_of_SomeD)
    with JObject.prems have "distinct_keys v" by (auto simp: list_all_iff)
    with JObject.IH [of "(k, v)" v] \<open>(k, v) \<in> set kvs\<close>
    have "sort_json (sort_json v) = sort_json v" by simp
    with Some map_of_sorted_members [OF d, of k] show ?thesis by simp
  qed
  from canon [OF dX d this] show ?case by simp
qed simp_all


lemma merge_object: "merge x (JObject ps) = JObject (mergeDocs (members_of x) ps)"
  by (simp add: members_of_def)

lemma members_of_distinct:
  "distinct_keys x \<Longrightarrow>
     distinct (map fst (members_of x)) \<and> list_all (\<lambda>kv. distinct_keys (snd kv)) (members_of x)"
  by (cases x) (simp_all add: members_of_def)

lemma lookup_distinct:
  "list_all (\<lambda>kv. distinct_keys (snd kv)) doc \<Longrightarrow> distinct_keys (lookup_or_null doc k)"
  using list_all_map_of [of "\<lambda>kv. distinct_keys (snd kv)" doc k]
  by (auto simp: lookup_or_null_def split: option.splits)

lemma map_of_mergeDocs':
  "distinct (map fst ps) \<Longrightarrow>
     map_of (mergeDocs doc ps) k =
       (case map_of ps k of
          None \<Rightarrow> map_of doc k
        | Some v \<Rightarrow> if v = JNull then None else Some (merge (lookup_or_null doc k) v))"
  unfolding lookup_or_null_def by (rule map_of_mergeDocs)

lemma members_of_cong:
  assumes "distinct_keys x" "distinct_keys x'" "sort_json x = sort_json x'"
  shows "map_option sort_json (map_of (members_of x) k)
           = map_option sort_json (map_of (members_of x') k)"
proof (cases x)
  case (JObject d)
  with assms(3) obtain d' where x': "x' = JObject d'" by (cases x') auto
  from assms JObject x' canon_conv [of d d' k] show ?thesis
    by (simp add: members_of_def)
next
  case JNull
  with assms(3) show ?thesis by (cases x') (auto simp: members_of_def)
next
  case (JBool b)
  with assms(3) show ?thesis by (cases x') (auto simp: members_of_def)
next
  case (JNumber n)
  with assms(3) show ?thesis by (cases x') (auto simp: members_of_def)
next
  case (JString t)
  with assms(3) show ?thesis by (cases x') (auto simp: members_of_def)
next
  case (JArray vs)
  with assms(3) show ?thesis by (cases x') (auto simp: members_of_def)
qed

lemma lookup_cong:
  assumes "map_option sort_json (map_of d k) = map_option sort_json (map_of d' k)"
  shows "sort_json (lookup_or_null d k) = sort_json (lookup_or_null d' k)"
  using assms by (auto simp: lookup_or_null_def split: option.splits)

lemma merge_cong:
  "distinct_keys p \<Longrightarrow> distinct_keys x \<Longrightarrow> distinct_keys x' \<Longrightarrow>
     sort_json x = sort_json x' \<Longrightarrow> sort_json (merge x p) = sort_json (merge x' p)"
proof (induction p arbitrary: x x')
  case (JObject ps)
  let ?d = "members_of x" and ?d' = "members_of x'"
  from JObject.prems(1) have dps: "distinct (map fst ps)"
    and nps: "list_all (\<lambda>kv. distinct_keys (snd kv)) ps" by simp_all
  note dx = members_of_distinct [OF JObject.prems(2)]
  note dx' = members_of_distinct [OF JObject.prems(3)]
  have rel: "map_option sort_json (map_of ?d k) = map_option sort_json (map_of ?d' k)" for k
    by (rule members_of_cong [OF JObject.prems(2,3,4)])
  have dm: "distinct (map fst (mergeDocs ?d ps))" "distinct (map fst (mergeDocs ?d' ps))"
    using merge_distinct_keys(2) [of ?d ps] merge_distinct_keys(2) [of ?d' ps] dx dx' nps
    by simp_all
  have "map_option sort_json (map_of (mergeDocs ?d ps) k)
          = map_option sort_json (map_of (mergeDocs ?d' ps) k)" for k
  proof (cases "map_of ps k")
    case None
    with rel [of k] show ?thesis by (simp add: map_of_mergeDocs' [OF dps])
  next
    case (Some v)
    then have mem: "(k, v) \<in> set ps" by (rule map_of_SomeD)
    with nps have dv: "distinct_keys v" by (auto simp: list_all_iff)
    have "sort_json (merge (lookup_or_null ?d k) v) = sort_json (merge (lookup_or_null ?d' k) v)"
      using JObject.IH [of "(k, v)" v, OF mem _ dv lookup_distinct lookup_distinct
          lookup_cong [OF rel [of k]]] dx dx'
      by simp
    with Some show ?thesis by (simp add: map_of_mergeDocs' [OF dps])
  qed
  from canon [OF dm this] show ?case by (simp only: merge_object)
qed simp_all

lemma merge_idem:
  "distinct_keys p \<Longrightarrow> distinct_keys x \<Longrightarrow>
     sort_json (merge (merge x p) p) = sort_json (merge x p)"
proof (induction p arbitrary: x)
  case (JObject ps)
  let ?d = "members_of x"
  let ?m = "mergeDocs ?d ps"
  from JObject.prems(1) have dps: "distinct (map fst ps)"
    and nps: "list_all (\<lambda>kv. distinct_keys (snd kv)) ps" by simp_all
  note dx = members_of_distinct [OF JObject.prems(2)]
  have dm: "distinct (map fst ?m)" "list_all (\<lambda>kv. distinct_keys (snd kv)) ?m"
    using merge_distinct_keys(2) [of ?d ps] dx nps by simp_all
  have dmm: "distinct (map fst (mergeDocs ?m ps))"
    using merge_distinct_keys(2) [of ?m ps] dm nps by simp
  have "map_option sort_json (map_of (mergeDocs ?m ps) k)
          = map_option sort_json (map_of ?m k)" for k
  proof (cases "map_of ps k")
    case None
    then show ?thesis by (simp add: map_of_mergeDocs' [OF dps])
  next
    case (Some v)
    then have mem: "(k, v) \<in> set ps" by (rule map_of_SomeD)
    with nps have dv: "distinct_keys v" by (auto simp: list_all_iff)
    show ?thesis
    proof (cases "v = JNull")
      case True
      with Some show ?thesis by (simp add: map_of_mergeDocs' [OF dps])
    next
      case False
      with Some have look: "lookup_or_null ?m k = merge (lookup_or_null ?d k) v"
        by (simp add: lookup_or_null_def [of ?m] map_of_mergeDocs' [OF dps])
      have "sort_json (merge (merge (lookup_or_null ?d k) v) v)
              = sort_json (merge (lookup_or_null ?d k) v)"
        using JObject.IH [of "(k, v)" v, OF mem _ dv lookup_distinct] dx by simp
      with Some False look show ?thesis
        by (simp add: map_of_mergeDocs' [OF dps])
    qed
  qed
  from canon [OF dmm dm(1) this] show ?case
    by (simp only: merge_object) (simp add: members_of_def)
qed simp_all















text \<open>
  Claim C9: when merging an incoming document onto an existing one succeeds with the
  output \<open>out\<close>, merging the same incoming document onto \<open>out\<close> succeeds with \<open>out\<close>
  again, byte for byte.
\<close>

theorem merge_reapplied_is_noop:
  assumes first: "combineJSONFile (Reader incoming None) fr path w = Inr out"
    and again: "fr' path' w' = Inr (content out)"
  shows "combineJSONFile (Reader incoming None) fr' path' w' = Inr out"
proof -
  from first obtain existing incoming' A B where
      ex: "fr path w = Inr existing" and rd: "Reader incoming None = Reader incoming' None"
      and A: "json_Unmarshal existing = Some (JObject A)"
      and B': "json_Unmarshal incoming' = Some (JObject B)"
    by (rule combine_success)
  from rd B' have B: "json_Unmarshal incoming = Some (JObject B)" by simp
  let ?JA = "JObject A" and ?JB = "JObject B"
  let ?JM = "JObject (mergeDocs A B)"
  from json_Unmarshal_ok [OF A] json_Unmarshal_ok [OF B]
  have dA: "distinct_keys ?JA" and dB: "distinct_keys ?JB" by simp_all
  from merged_ok [OF A B] have okM: "lexemes_ok ?JM" and dM: "distinct_keys ?JM" by simp_all
  have out: "out = Reader (render True 0 (sort_json ?JM)) None"
    using combine_objects [where fr = fr and path = path and w = w, OF ex A B] first by simp
  obtain R where R: "sort_json ?JM = JObject R" by simp
  have reread: "json_Unmarshal (content out) = Some (JObject R)"
    using json_Unmarshal_render [of "sort_json ?JM" True 0]
      sort_json_lexemes_ok [OF okM] sort_json_distinct_keys [OF dM] out R
    by simp
  have "sort_json (merge (sort_json ?JM) ?JB) = sort_json (merge ?JM ?JB)"
    using merge_cong [OF dB sort_json_distinct_keys [OF dM] dM sort_json_idem [OF dM]] .
  also have "merge ?JM ?JB = merge (merge ?JA ?JB) ?JB" by simp
  also have "sort_json (merge (merge ?JA ?JB) ?JB) = sort_json (merge ?JA ?JB)"
    by (rule merge_idem [OF dB dA])
  also have "merge ?JA ?JB = ?JM" by simp
  finally have "sort_json (JObject (mergeDocs R B)) = sort_json ?JM"
    by (simp only: R merge.simps json.case)
  with combine_objects [where fr = fr' and path = path' and w = w', OF again reread B] out
  show ?thesis by simp
qed

theorem merge_reapplied_is_noop_witness:
  "combineJSONFile (Reader doc_incoming None) (fixed_reader doc_existing) ''pages/p.json''
      (empty_world [])
     = Inr (Reader doc_merged None)
   \<and> combineJSONFile (Reader doc_incoming None) (fixed_reader doc_merged) ''pages/p.json''
      (empty_world [])
     = Inr (Reader doc_merged None)"
proof -
  have first: "combineJSONFile (Reader doc_incoming None) (fixed_reader doc_existing)
      ''pages/p.json'' (empty_world [])
     = Inr (Reader doc_merged None)"
    by code_simp
  have again: "fixed_reader doc_merged ''pages/p.json'' (empty_world [])
     = Inr (content (Reader doc_merged None))"
    by (simp add: fixed_reader_def)
  from merge_reapplied_is_noop [where fr' = "fixed_reader doc_merged", OF first again] first
  show ?thesis by simp
qed

end
